theory Spec2Isabelle
  imports Complex_Main "HOL-Library.Sublist"
begin

section \<open>Data model\<close>

text \<open>
  The input of \<^verbatim>\<open>sparseDistance\<close> is a pandas data frame whose documented contents
  are 1, 0 and NaN.  An entry is modelled by the three states it can take:
  \<open>Present\<close> is 1, \<open>Absent\<close> is 0 and \<open>Missing\<close> is NaN.  The comparison
  \<^verbatim>\<open>keptX>=0\<close> holds for 1 and 0 and fails for NaN, \<^verbatim>\<open>==1\<close> holds for 1 only and
  \<^verbatim>\<open>==0\<close> for 0 only.
\<close>

datatype entry = Present | Absent | Missing

fun measured :: "entry \<Rightarrow> bool" where
  "measured Present = True"
| "measured Absent = True"
| "measured Missing = False"

text \<open>
  A data frame carries its row labels (\<open>index\<close>), its column labels (\<open>columns\<close>) and the
  values row by row.  The masks of the filtering loop address rows and columns by
  position and the labels travel with them.  Where the source selects by label
  (\<^verbatim>\<open>keptX[feature]\<close>, line 55) the model does so too, see \<open>getitem\<close> below.
\<close>

record ('r, 'c, 'v) frame =
  index :: "'r list"
  columns :: "'c list"
  vals :: "'v list list"

definition nrows :: "('r, 'c, 'v) frame \<Rightarrow> nat" where
  "nrows K = length (vals K)"

definition ncols :: "('r, 'c, 'v) frame \<Rightarrow> nat" where
  "ncols K = length (columns K)"

text \<open>A frame is rectangular: one label per row, and every row as long as the column axis.\<close>

definition wf_frame :: "('r, 'c, 'v) frame \<Rightarrow> bool" where
  "wf_frame K \<longleftrightarrow>
     length (index K) = length (vals K) \<and>
     list_all (\<lambda>row. length row = length (columns K)) (vals K)"

text \<open>Python's \<^verbatim>\<open>sum\<close> of a boolean mask counts its true entries.\<close>

definition sum_mask :: "bool list \<Rightarrow> nat" where
  "sum_mask m = length (filter id m)"

text \<open>Selection by a boolean mask, as \<^verbatim>\<open>keptX[mask]\<close> and \<^verbatim>\<open>.loc[:, mask]\<close> do.\<close>

definition select :: "bool list \<Rightarrow> 'a list \<Rightarrow> 'a list" where
  "select m xs = map snd (filter fst (zip m xs))"

definition select_rows :: "bool list \<Rightarrow> ('r, 'c, 'v) frame \<Rightarrow> ('r, 'c, 'v) frame" where
  "select_rows m K = K\<lparr>index := select m (index K), vals := select m (vals K)\<rparr>"

definition select_columns :: "bool list \<Rightarrow> ('r, 'c, 'v) frame \<Rightarrow> ('r, 'c, 'v) frame" where
  "select_columns m K = K\<lparr>columns := select m (columns K), vals := map (select m) (vals K)\<rparr>"

text \<open>The column at position \<open>j\<close>, read down the rows.\<close>

definition col :: "nat \<Rightarrow> ('r, 'c, 'v) frame \<Rightarrow> 'v list" where
  "col j K = map (\<lambda>row. row ! j) (vals K)"

definition count :: "('a \<Rightarrow> bool) \<Rightarrow> 'a list \<Rightarrow> nat" where
  "count P xs = length (filter P xs)"

section \<open>The filtering loop\<close>

text \<open>
  \<^verbatim>\<open>selectedCells = (keptX>=0).sum(axis=1) >= minMeasurementsPerCell\<close>
\<close>

definition selectedCells_of :: "int \<Rightarrow> ('r, 'c, entry) frame \<Rightarrow> bool list" where
  "selectedCells_of minMeasurementsPerCell K =
     map (\<lambda>row. int (count measured row) \<ge> minMeasurementsPerCell) (vals K)"

text \<open>
  \<^verbatim>\<open>selectedColumns = ((keptX[selectedCells]==1).sum(axis=0)>=minPresence)
                     & ((keptX[selectedCells]==0).sum(axis=0)>0)\<close>
\<close>

definition selectedColumns_of :: "int \<Rightarrow> ('r, 'c, entry) frame \<Rightarrow> bool list" where
  "selectedColumns_of minPresence K =
     map (\<lambda>j. int (count (\<lambda>e. e = Present) (col j K)) \<ge> minPresence
             \<and> count (\<lambda>e. e = Absent) (col j K) > 0)
         [0..<length (columns K)]"

text \<open>
  The loop state is \<open>(prev, selected, keptX)\<close>: \<open>prev\<close> is \<open>None\<close> or the pair of counts
  of the iteration before the last, \<open>selected\<close> is \<open>None\<close> before the first iteration and
  the pair \<open>(selectedCells, selectedColumns)\<close> after it.  The loop test reads
  \<open>selectedCells\<close> only when \<open>prev\<close> is set, and \<open>prev\<close> is set only once
  \<open>selectedCells\<close> is, so the state with \<open>prev\<close> set and \<open>selected = None\<close> does
  not arise; the test is given the value \<open>False\<close> there.
\<close>

type_synonym selection = "bool list \<times> bool list"

fun loop_test :: "(nat \<times> nat) option \<Rightarrow> selection option \<Rightarrow> bool" where
  "loop_test None sel = True"
| "loop_test (Some p) (Some (selectedCells, selectedColumns)) =
     (fst p \<noteq> sum_mask selectedCells \<or> snd p \<noteq> sum_mask selectedColumns)"
| "loop_test (Some p) None = False"

fun next_prev :: "(nat \<times> nat) option \<Rightarrow> selection option \<Rightarrow> (nat \<times> nat) option" where
  "next_prev prev None = prev"
| "next_prev prev (Some (selectedCells, selectedColumns)) =
     Some (sum_mask selectedCells, sum_mask selectedColumns)"

definition next_selection :: "int \<Rightarrow> int \<Rightarrow> ('r, 'c, entry) frame \<Rightarrow> selection" where
  "next_selection minPresence minMeasurementsPerCell K =
     (let selectedCells = selectedCells_of minMeasurementsPerCell K;
          selectedColumns = selectedColumns_of minPresence (select_rows selectedCells K)
      in (selectedCells, selectedColumns))"

text \<open>\<^verbatim>\<open>keptX = keptX[selectedCells].loc[:,selectedColumns]\<close>\<close>

definition restrict :: "selection \<Rightarrow> ('r, 'c, 'v) frame \<Rightarrow> ('r, 'c, 'v) frame" where
  "restrict sel K = select_columns (snd sel) (select_rows (fst sel) K)"

text \<open>One pass of the loop body on the working matrix.\<close>

definition filter_step :: "int \<Rightarrow> int \<Rightarrow> ('r, 'c, entry) frame \<Rightarrow> ('r, 'c, entry) frame" where
  "filter_step minPresence minMeasurementsPerCell K =
     restrict (next_selection minPresence minMeasurementsPerCell K) K"

lemma length_select_map [simp]: "length (select (map f xs) xs) = sum_mask (map f xs)"
  unfolding select_def sum_mask_def
  by (induction xs) auto

lemma sum_mask_le [simp]: "sum_mask m \<le> length m"
  unfolding sum_mask_def by simp

lemma nrows_filter_step:
  "nrows (filter_step mp mm K) = sum_mask (fst (next_selection mp mm K))"
  by (simp add: nrows_def filter_step_def restrict_def next_selection_def Let_def
      select_columns_def select_rows_def selectedCells_of_def)

lemma select_upt_map:
  "length xs = n \<Longrightarrow> length (select (map f [0..<n]) xs) = sum_mask (map f [0..<n])"
proof -
  assume len: "length xs = n"
  have "length (filter fst (zip ms ys)) = length (filter id ms)"
    if "length ms = length ys" for ms :: "bool list" and ys :: "'a list"
    using that by (induction ms ys rule: list_induct2) auto
  from this [of "map f [0..<n]" xs] len show ?thesis
    by (simp add: select_def sum_mask_def)
qed

lemma ncols_filter_step:
  "ncols (filter_step mp mm K) = sum_mask (snd (next_selection mp mm K))"
  by (simp add: ncols_def filter_step_def restrict_def next_selection_def Let_def
      select_columns_def select_rows_def selectedColumns_of_def select_upt_map)

lemma nrows_filter_step_le: "nrows (filter_step mp mm K) \<le> nrows K"
proof -
  have "sum_mask (selectedCells_of mm K) \<le> length (vals K)"
    using sum_mask_le [of "selectedCells_of mm K"] by (simp add: selectedCells_of_def)
  then show ?thesis
    unfolding nrows_filter_step by (simp add: next_selection_def Let_def nrows_def)
qed

lemma ncols_filter_step_le: "ncols (filter_step mp mm K) \<le> ncols K"
proof -
  let ?K = "select_rows (selectedCells_of mm K) K"
  have "sum_mask (selectedColumns_of mp ?K) \<le> length (columns ?K)"
    using sum_mask_le [of "selectedColumns_of mp ?K"] by (simp add: selectedColumns_of_def)
  then show ?thesis
    unfolding ncols_filter_step by (simp add: next_selection_def Let_def ncols_def select_rows_def)
qed

text \<open>
  The \<^verbatim>\<open>while\<close> loop of lines 40 to 46.  It ends: a pass that does not shrink the
  working matrix repeats the counts of the pass before, which is the exit test.
\<close>

definition loop_rank ::
  "(nat \<times> nat) option \<times> selection option \<times> ('r, 'c, entry) frame \<Rightarrow> nat" where
  "loop_rank s =
     (case s of (prev, sel, K) \<Rightarrow>
        3 * (nrows K + ncols K) +
        (if \<not> loop_test prev sel then 0
         else if next_prev None sel = Some (nrows K, ncols K) then 1 else 2))"

function filter_loop ::
  "int \<Rightarrow> int \<Rightarrow> (nat \<times> nat) option \<Rightarrow> selection option \<Rightarrow> ('r, 'c, entry) frame
     \<Rightarrow> ('r, 'c, entry) frame" where
  "filter_loop minPresence minMeasurementsPerCell prev selected keptX =
     (if loop_test prev selected then
        (let prev' = next_prev prev selected;
             selected' = next_selection minPresence minMeasurementsPerCell keptX;
             keptX' = restrict selected' keptX
         in filter_loop minPresence minMeasurementsPerCell prev' (Some selected') keptX')
      else keptX)"
  by pat_completeness auto

lemma loop_rank_decreases:
  assumes "loop_test prev sel"
  shows "loop_rank (next_prev prev sel, Some (next_selection mp mm K),
                    restrict (next_selection mp mm K) K)
         < loop_rank (prev, sel, K)"
proof -
  let ?K' = "filter_step mp mm K"
  let ?s' = "next_selection mp mm K"
  have K': "restrict ?s' K = ?K'" by (simp add: filter_step_def)
  have inv': "next_prev None (Some ?s') = Some (nrows ?K', ncols ?K')"
    by (cases ?s') (simp add: nrows_filter_step ncols_filter_step)
  have le: "nrows ?K' \<le> nrows K" "ncols ?K' \<le> ncols K"
    by (rule nrows_filter_step_le, rule ncols_filter_step_le)
  show ?thesis
  proof (cases "nrows ?K' + ncols ?K' < nrows K + ncols K")
    case True
    then show ?thesis unfolding loop_rank_def K' by (simp add: inv')
  next
    case False
    with le have eq: "nrows ?K' = nrows K" "ncols ?K' = ncols K" by auto
    show ?thesis
    proof (cases "next_prev None sel = Some (nrows K, ncols K)")
      case True
      then obtain sc sl where
        sel: "sel = Some (sc, sl)" "sum_mask sc = nrows K" "sum_mask sl = ncols K"
        by (cases sel) auto
      have stop: "\<not> loop_test (next_prev prev sel) (Some ?s')"
        using sel eq by (cases ?s') (simp add: nrows_filter_step ncols_filter_step)
      show ?thesis unfolding loop_rank_def K' using assms stop True by (simp add: eq)
    next
      case False
      then show ?thesis unfolding loop_rank_def K' using assms by (simp add: eq inv')
    qed
  qed
qed

termination filter_loop
  by (relation "measure (\<lambda>(mp, mm, prev, sel, K). loop_rank (prev, sel, K))")
     (auto simp: loop_rank_decreases)

declare filter_loop.simps [simp del]

text \<open>
  The same loop, returning the number of times its body runs instead of the matrix.
\<close>

function filter_loop_passes ::
  "int \<Rightarrow> int \<Rightarrow> (nat \<times> nat) option \<Rightarrow> selection option \<Rightarrow> ('r, 'c, entry) frame \<Rightarrow> nat" where
  "filter_loop_passes minPresence minMeasurementsPerCell prev selected keptX =
     (if loop_test prev selected then
        (let prev' = next_prev prev selected;
             selected' = next_selection minPresence minMeasurementsPerCell keptX;
             keptX' = restrict selected' keptX
         in Suc (filter_loop_passes minPresence minMeasurementsPerCell prev' (Some selected') keptX'))
      else 0)"
  by pat_completeness auto
termination filter_loop_passes
  by (relation "measure (\<lambda>(mp, mm, prev, sel, K). loop_rank (prev, sel, K))")
     (auto simp: loop_rank_decreases)

declare filter_loop_passes.simps [simp del]

text \<open>Lines 37 to 46: the loop started as the source starts it.\<close>

definition DataFilter :: "int \<Rightarrow> int \<Rightarrow> ('r, 'c, entry) frame \<Rightarrow> ('r, 'c, entry) frame" where
  "DataFilter minPresence minMeasurementsPerCell X =
     filter_loop minPresence minMeasurementsPerCell None None X"

section \<open>Floating-point values\<close>

text \<open>
  The weights and the matrix entries are float64 values.  They are modelled as real
  numbers extended by the two infinities and NaN, with the IEEE rules for them: rounding
  is left out and the two zeros are one.  numpy does not raise on a division by zero or on
  the logarithm of zero; it yields an infinity or NaN, and so does the model.
\<close>

datatype npfloat = Fin real | PInf | NInf | NaN

fun fneg :: "npfloat \<Rightarrow> npfloat" where
  "fneg (Fin x) = Fin (- x)"
| "fneg PInf = NInf"
| "fneg NInf = PInf"
| "fneg NaN = NaN"

fun fadd :: "npfloat \<Rightarrow> npfloat \<Rightarrow> npfloat" where
  "fadd (Fin x) (Fin y) = Fin (x + y)"
| "fadd NaN b = NaN"
| "fadd a NaN = NaN"
| "fadd PInf NInf = NaN"
| "fadd NInf PInf = NaN"
| "fadd PInf b = PInf"
| "fadd a PInf = PInf"
| "fadd NInf b = NInf"
| "fadd a NInf = NInf"

definition fsub :: "npfloat \<Rightarrow> npfloat \<Rightarrow> npfloat" where
  "fsub a b = fadd a (fneg b)"

text \<open>The product of a float and a boolean (1.0 or 0.0): an infinity times zero is NaN.\<close>

fun fscale :: "npfloat \<Rightarrow> bool \<Rightarrow> npfloat" where
  "fscale a True = a"
| "fscale (Fin x) False = Fin 0"
| "fscale a False = NaN"

fun fdiv :: "npfloat \<Rightarrow> npfloat \<Rightarrow> npfloat" where
  "fdiv (Fin x) (Fin y) =
     (if y \<noteq> 0 then Fin (x / y)
      else if x > 0 then PInf else if x < 0 then NInf else NaN)"
| "fdiv NaN b = NaN"
| "fdiv a NaN = NaN"
| "fdiv (Fin x) b = Fin 0"
| "fdiv PInf (Fin y) = (if y \<ge> 0 then PInf else NInf)"
| "fdiv NInf (Fin y) = (if y \<ge> 0 then NInf else PInf)"
| "fdiv a b = NaN"

fun fsq :: "npfloat \<Rightarrow> npfloat" where
  "fsq (Fin x) = Fin (x * x)"
| "fsq PInf = PInf"
| "fsq NInf = PInf"
| "fsq NaN = NaN"

text \<open>\<^verbatim>\<open>np.log2\<close>: minus infinity at zero, NaN below it.\<close>

fun flog2 :: "npfloat \<Rightarrow> npfloat" where
  "flog2 (Fin x) = (if x > 0 then Fin (log 2 x) else if x = 0 then NInf else NaN)"
| "flog2 PInf = PInf"
| "flog2 NInf = NaN"
| "flog2 NaN = NaN"

text \<open>
  \<^verbatim>\<open>np.sum\<close> of a vector (without rounding the order of the additions does not
  matter), and the elementwise operations on vectors.  The vectors that meet in an
  operation have the same length, the number of retained columns.
\<close>

primrec fsum :: "npfloat list \<Rightarrow> npfloat" where
  "fsum [] = Fin 0"
| "fsum (x # xs) = fadd x (fsum xs)"

definition vadd :: "npfloat list \<Rightarrow> npfloat list \<Rightarrow> npfloat list" where
  "vadd xs ys = map2 fadd xs ys"

definition vscale :: "npfloat list \<Rightarrow> bool list \<Rightarrow> npfloat list" where
  "vscale xs bs = map2 fscale xs bs"

definition is_value :: "entry \<Rightarrow> entry list \<Rightarrow> bool list" where
  "is_value v a = map (\<lambda>e. e = v) a"

definition logical_and :: "bool list \<Rightarrow> bool list \<Rightarrow> bool list" where
  "logical_and xs ys = map2 (\<and>) xs ys"

section \<open>Feature weights\<close>

text \<open>
  Lines 51 to 64: one pair \<open>(pOnes, pZeros)\<close> for each entry of \<^verbatim>\<open>keptX.columns\<close>.

  \<^verbatim>\<open>keptX[feature]\<close> selects by label: it yields, row by row, the entries of every
  column that carries the label \<open>feature\<close>.  With distinct labels that is one column; a
  label that is repeated selects all its columns at once.
\<close>

definition label_positions :: "'c \<Rightarrow> ('r, 'c, 'v) frame \<Rightarrow> nat list" where
  "label_positions feature K =
     filter (\<lambda>j. columns K ! j = feature) [0..<length (columns K)]"

definition getitem :: "'c \<Rightarrow> ('r, 'c, 'v) frame \<Rightarrow> 'v list list" where
  "getitem feature K = map (\<lambda>row. map (\<lambda>j. row ! j) (label_positions feature K)) (vals K)"

text \<open>
  \<^verbatim>\<open>np.sum(column==v)\<close> counts the entries equal to \<open>v\<close> in all of the selection, and
  \<^verbatim>\<open>len(column)\<close> is its number of rows.
\<close>

definition weight_of :: "bool \<Rightarrow> entry \<Rightarrow> entry list list \<Rightarrow> npfloat" where
  "weight_of weight v column =
     (if weight then
        fneg (flog2 (fsq (fdiv (Fin (real (count (\<lambda>e. e = v) (concat column))))
                               (Fin (real (length column))))))
      else fneg (flog2 (fsq (Fin (1 / 2)))))"

definition pOnes_of :: "bool \<Rightarrow> ('r, 'c, entry) frame \<Rightarrow> npfloat list" where
  "pOnes_of weight K =
     map (\<lambda>feature. weight_of weight Present (getitem feature K)) (columns K)"

definition pZeros_of :: "bool \<Rightarrow> ('r, 'c, entry) frame \<Rightarrow> npfloat list" where
  "pZeros_of weight K =
     map (\<lambda>feature. weight_of weight Absent (getitem feature K)) (columns K)"

section \<open>The pairwise loop\<close>

text \<open>
  Both nested loops of the source have the shape
  \<^verbatim>\<open>for i in range(n): for j in range(n): body; if i==j: break\<close>.
\<close>

fun inner_loop :: "(nat \<Rightarrow> 's \<Rightarrow> 's) \<Rightarrow> nat \<Rightarrow> nat list \<Rightarrow> 's \<Rightarrow> 's" where
  "inner_loop body cai [] s = s"
| "inner_loop body cai (cbi # rest) s =
     (let s' = body cbi s in if cai = cbi then s' else inner_loop body cai rest s')"

definition nested_loop :: "nat \<Rightarrow> (nat \<Rightarrow> nat \<Rightarrow> 's \<Rightarrow> 's) \<Rightarrow> 's \<Rightarrow> 's" where
  "nested_loop n body s = foldl (\<lambda>s cai. inner_loop (body cai) cai [0..<n] s) s [0..<n]"

text \<open>The quantities of lines 88 to 107 for two rows \<open>a\<close> and \<open>b\<close>.\<close>

definition pairwiseUnnormalizedDistance ::
  "npfloat list \<Rightarrow> npfloat list \<Rightarrow> entry list \<Rightarrow> entry list \<Rightarrow> npfloat list" where
  "pairwiseUnnormalizedDistance pOnes pZeros a b =
     vadd (vscale (vadd pOnes pZeros) (logical_and (is_value Present a) (is_value Absent b)))
          (vscale (vadd pZeros pOnes) (logical_and (is_value Absent a) (is_value Present b)))"

definition normalisationFactor_of ::
  "npfloat list \<Rightarrow> npfloat list \<Rightarrow> entry list \<Rightarrow> entry list \<Rightarrow> npfloat" where
  "normalisationFactor_of pOnes pZeros a b =
     fadd (fadd (fadd (fsum (vscale pOnes (is_value Present a)))
                      (fsum (vscale pZeros (is_value Absent a))))
                (fsum (vscale pOnes (is_value Present b))))
          (fsum (vscale pZeros (is_value Absent b)))"

definition pairwiseNormalizedDistance ::
  "npfloat list \<Rightarrow> npfloat list \<Rightarrow> entry list \<Rightarrow> entry list \<Rightarrow> npfloat" where
  "pairwiseNormalizedDistance pOnes pZeros a b =
     fdiv (fsum (pairwiseUnnormalizedDistance pOnes pZeros a b))
          (normalisationFactor_of pOnes pZeros a b)"

definition sim_of ::
  "npfloat list \<Rightarrow> npfloat list \<Rightarrow> entry list \<Rightarrow> entry list \<Rightarrow> npfloat" where
  "sim_of pOnes pZeros a b =
     fadd (fsum (vscale (vadd pOnes pOnes)
                        (logical_and (is_value Present a) (is_value Present b))))
          (fsum (vscale (vadd pZeros pZeros)
                        (logical_and (is_value Absent a) (is_value Absent b))))"

definition normalisedSim ::
  "npfloat list \<Rightarrow> npfloat list \<Rightarrow> entry list \<Rightarrow> entry list \<Rightarrow> npfloat" where
  "normalisedSim pOnes pZeros a b =
     fdiv (sim_of pOnes pZeros a b) (normalisationFactor_of pOnes pZeros a b)"

definition joinedDistance ::
  "npfloat list \<Rightarrow> npfloat list \<Rightarrow> entry list \<Rightarrow> entry list \<Rightarrow> npfloat" where
  "joinedDistance pOnes pZeros a b =
     fadd (pairwiseNormalizedDistance pOnes pZeros a b)
          (fsub (Fin 1) (normalisedSim pOnes pZeros a b))"

text \<open>
  The variables the pairwise loop assigns.  \<open>normalisationFactor\<close> is \<open>None\<close> until its
  first assignment.
\<close>

record locals =
  simMatrix :: "npfloat list list"
  differenceMatrix :: "npfloat list list"
  jointMatrix :: "npfloat list list"
  normalisationFactor :: "npfloat option"

definition zeros :: "nat \<Rightarrow> npfloat list list" where
  "zeros n = replicate n (replicate n (Fin 0))"

text \<open>\<^verbatim>\<open>M[i, j] = v\<close>\<close>

definition assign :: "'a list list \<Rightarrow> nat \<Rightarrow> nat \<Rightarrow> 'a \<Rightarrow> 'a list list" where
  "assign M i j v = M[i := (M ! i)[j := v]]"

definition pair_body ::
  "npfloat list \<Rightarrow> npfloat list \<Rightarrow> entry list list \<Rightarrow> nat \<Rightarrow> nat \<Rightarrow> locals \<Rightarrow> locals" where
  "pair_body pOnes pZeros rawMatrix cai cbi s =
     (let a = rawMatrix ! cai;
          b = rawMatrix ! cbi
      in \<lparr>simMatrix = assign (simMatrix s) cai cbi (normalisedSim pOnes pZeros a b),
          differenceMatrix =
            assign (differenceMatrix s) cai cbi (pairwiseNormalizedDistance pOnes pZeros a b),
          jointMatrix = assign (jointMatrix s) cai cbi (joinedDistance pOnes pZeros a b),
          normalisationFactor = Some (normalisationFactor_of pOnes pZeros a b)\<rparr>)"

definition pairwise ::
  "npfloat list \<Rightarrow> npfloat list \<Rightarrow> entry list list \<Rightarrow> locals" where
  "pairwise pOnes pZeros rawMatrix =
     (let n = length rawMatrix
      in nested_loop n (pair_body pOnes pZeros rawMatrix)
           \<lparr>simMatrix = zeros n, differenceMatrix = zeros n, jointMatrix = zeros n,
            normalisationFactor = None\<rparr>)"

text \<open>Lines 114 to 118: \<^verbatim>\<open>jointMatrix[j,i]=jointMatrix[i,j]\<close> below the diagonal.\<close>

definition mirror_body :: "nat \<Rightarrow> nat \<Rightarrow> 'a list list \<Rightarrow> 'a list list" where
  "mirror_body i j M = assign M j i (M ! i ! j)"

definition mirror :: "'a list list \<Rightarrow> 'a list list" where
  "mirror M = nested_loop (length M) mirror_body M"

section \<open>sparseDistance\<close>

text \<open>
  The errors of the function: the \<^verbatim>\<open>ValueError\<close> of line 49, and the error Python
  raises at the \<^verbatim>\<open>return\<close> when \<^verbatim>\<open>normalisationFactor\<close> was never assigned (this
  needs a pairwise loop without a pass, which the check of line 48 excludes).
\<close>

datatype error = ValueError string | UnboundLocalError string

record ('r, 'c) returned =
  out_keptX :: "('r, 'c, entry) frame"
  out_jointMatrix :: "('r, 'r, npfloat) frame"
  out_simMatrix :: "('r, 'r, npfloat) frame"
  out_differenceMatrix :: "('r, 'r, npfloat) frame"
  out_normalisationFactor :: npfloat

text \<open>\<^verbatim>\<open>pd.DataFrame(M)\<close> with both axes labelled by \<^verbatim>\<open>keptX.index\<close>.\<close>

definition labelled :: "'r list \<Rightarrow> 'v list list \<Rightarrow> ('r, 'r, 'v) frame" where
  "labelled labels M = \<lparr>index = labels, columns = labels, vals = M\<rparr>"

definition sparseDistance ::
  "('r, 'c, entry) frame \<Rightarrow> int \<Rightarrow> int \<Rightarrow> bool \<Rightarrow> error + ('r, 'c) returned" where
  "sparseDistance X minPresence minMeasurementsPerCell weight =
     (let keptX = DataFilter minPresence minMeasurementsPerCell X
      in if nrows keptX < 2 then Inl (ValueError ''Not enough data'')
         else
           (let pOnes = pOnes_of weight keptX;
                pZeros = pZeros_of weight keptX;
                s = pairwise pOnes pZeros (vals keptX);
                joint = mirror (jointMatrix s)
            in case normalisationFactor s of
                 None \<Rightarrow> Inl (UnboundLocalError ''normalisationFactor'')
               | Some nf \<Rightarrow>
                   Inr \<lparr>out_keptX = keptX,
                        out_jointMatrix = labelled (index keptX) joint,
                        out_simMatrix = labelled (index keptX) (simMatrix s),
                        out_differenceMatrix = labelled (index keptX) (differenceMatrix s),
                        out_normalisationFactor = nf\<rparr>))"

section \<open>Notions used to state the properties\<close>

text \<open>
  The fraction of the rows of \<open>K\<close> in which column \<open>j\<close> holds the value \<open>v\<close>, the
  denominator being the number of all rows, those with a missing entry included.
\<close>

definition fraction :: "entry \<Rightarrow> nat \<Rightarrow> ('r, 'c, entry) frame \<Rightarrow> real" where
  "fraction v j K = real (card {i. i < nrows K \<and> vals K ! i ! j = v}) / real (nrows K)"

text \<open>Finite values, and finite values above and from zero.\<close>

fun finite_positive :: "npfloat \<Rightarrow> bool" where
  "finite_positive (Fin r) = (0 < r)"
| "finite_positive x = False"

fun finite_nonneg :: "npfloat \<Rightarrow> bool" where
  "finite_nonneg (Fin r) = (0 \<le> r)"
| "finite_nonneg x = False"

fun is_finite :: "npfloat \<Rightarrow> bool" where
  "is_finite (Fin r) = True"
| "is_finite x = False"

text \<open>An \<open>n\<close> by \<open>n\<close> matrix.\<close>

definition square :: "nat \<Rightarrow> 'a list list \<Rightarrow> bool" where
  "square n M \<longleftrightarrow> length M = n \<and> list_all (\<lambda>row. length row = n) M"

section \<open>Sample inputs\<close>

definition sparse_example :: "(nat, nat, entry) frame" where
  "sparse_example =
     \<lparr>index = [0, 1, 2], columns = [0, 1, 2],
      vals = [[Present, Absent, Missing], [Absent, Present, Missing], [Missing, Missing, Missing]]\<rparr>"

definition all_missing :: "(nat, nat, entry) frame" where
  "all_missing = \<lparr>index = [0, 1], columns = [0, 1], vals = [[Missing, Missing], [Missing, Missing]]\<rparr>"

definition three_cells :: "(nat, nat, entry) frame" where
  "three_cells =
     \<lparr>index = [0, 1, 2], columns = [0, 1],
      vals = [[Present, Absent], [Present, Present], [Absent, Absent]]\<rparr>"

definition no_features :: "(nat, nat, entry) frame" where
  "no_features = \<lparr>index = [0, 1], columns = [0], vals = [[Missing], [Missing]]\<rparr>"

definition only_present :: "(nat, nat, entry) frame" where
  "only_present = \<lparr>index = [0, 1], columns = [0], vals = [[Present], [Present]]\<rparr>"

definition two_cells :: "(nat, nat, entry) frame" where
  "two_cells = \<lparr>index = [0, 1], columns = [0, 1], vals = [[Present, Absent], [Absent, Present]]\<rparr>"

definition four_cells :: "(nat, nat, entry) frame" where
  "four_cells =
     \<lparr>index = [0, 1, 2, 3], columns = [0], vals = [[Present], [Absent], [Absent], [Missing]]\<rparr>"

definition repeated_label :: "(nat, nat, entry) frame" where
  "repeated_label =
     \<lparr>index = [0, 1], columns = [7, 7], vals = [[Present, Absent], [Absent, Present]]\<rparr>"

definition single_present :: "(nat, nat, entry) frame" where
  "single_present = \<lparr>index = [0], columns = [0], vals = [[Present]]\<rparr>"

section \<open>Properties of the filtering loop\<close>

lemma length_filter_zip:
  "length ms = length ys \<Longrightarrow> length (filter fst (zip ms ys)) = sum_mask ms"
  unfolding sum_mask_def by (induction ms ys rule: list_induct2) auto

lemma length_select:
  "length m = length xs \<Longrightarrow> length (select m xs) = sum_mask m"
  by (simp add: select_def length_filter_zip)

lemma select_all:
  "length m = length xs \<Longrightarrow> sum_mask m = length m \<Longrightarrow> select m xs = xs"
proof (induction m xs rule: list_induct2)
  case Nil
  then show ?case by (simp add: select_def)
next
  case (Cons b m x xs)
  have le: "length (filter id m) \<noteq> Suc (length m)"
    using length_filter_le [of id m] by linarith
  from Cons.prems le have b: "b" and rest: "sum_mask m = length m"
    by (auto simp: sum_mask_def split: if_splits)
  with Cons.IH show ?case by (simp add: select_def)
qed

lemma sum_mask_all: "length m = n \<Longrightarrow> sum_mask m = n \<Longrightarrow> list_all id m"
proof (induction m arbitrary: n)
  case Nil
  then show ?case by simp
next
  case (Cons b m)
  have le: "length (filter id m) \<noteq> Suc (length m)"
    using length_filter_le [of id m] by linarith
  from Cons.prems le have "b" and "sum_mask m = length m"
    by (auto simp: sum_mask_def split: if_splits)
  with Cons.IH show ?case by simp
qed

lemma length_selectedCells [simp]: "length (selectedCells_of mm K) = length (vals K)"
  by (simp add: selectedCells_of_def)

lemma length_selectedColumns [simp]: "length (selectedColumns_of mp K) = length (columns K)"
  by (simp add: selectedColumns_of_def)

lemma set_select_subset: "set (select m xs) \<subseteq> set xs"
  unfolding select_def by (auto dest: set_zip_rightD)

lemma wf_select_rows: "wf_frame K \<Longrightarrow> length m = length (vals K) \<Longrightarrow> wf_frame (select_rows m K)"
  using set_select_subset [of m "vals K"]
  by (auto simp: wf_frame_def select_rows_def length_select list_all_iff)

lemma wf_select_columns:
  "wf_frame K \<Longrightarrow> length m = length (columns K) \<Longrightarrow> wf_frame (select_columns m K)"
  by (auto simp: wf_frame_def select_columns_def length_select list_all_iff)

lemma wf_filter_step:
  assumes "wf_frame K"
  shows "wf_frame (filter_step mp mm K)"
proof -
  let ?K1 = "select_rows (selectedCells_of mm K) K"
  have 1: "wf_frame ?K1" using assms by (simp add: wf_select_rows)
  have "wf_frame (select_columns (selectedColumns_of mp ?K1) ?K1)"
    using 1 by (rule wf_select_columns) simp
  then show ?thesis
    by (simp add: filter_step_def restrict_def next_selection_def Let_def)
qed

lemma filter_step_fixed:
  assumes wf: "wf_frame K"
    and r: "nrows (filter_step mp mm K) = nrows K"
    and c: "ncols (filter_step mp mm K) = ncols K"
  shows "filter_step mp mm K = K"
proof -
  let ?sc = "selectedCells_of mm K"
  have sc: "sum_mask ?sc = length ?sc"
    using r unfolding nrows_filter_step by (simp add: next_selection_def Let_def nrows_def)
  have rows: "select_rows ?sc K = K"
    using wf sc by (simp add: select_rows_def select_all wf_frame_def)
  let ?sl = "selectedColumns_of mp K"
  have sl: "sum_mask ?sl = length ?sl"
    using c unfolding ncols_filter_step by (simp add: next_selection_def Let_def ncols_def rows)
  have "map (select ?sl) (vals K) = vals K"
    using wf sl by (intro map_idI select_all) (auto simp: wf_frame_def list_all_iff)
  then have "select_columns ?sl K = K"
    using sl by (simp add: select_columns_def select_all)
  then show ?thesis
    by (simp add: filter_step_def restrict_def next_selection_def Let_def rows)
qed

lemma filter_loop_inv:
  assumes "wf_frame K"
    and "sel = Some (sc, sl)" and "sum_mask sc = nrows K" and "sum_mask sl = ncols K"
    and "\<And>p. prev = Some p \<Longrightarrow>
           \<exists>K0. wf_frame K0 \<and> filter_step mp mm K0 = K \<and> p = (nrows K0, ncols K0)"
  shows "filter_step mp mm (filter_loop mp mm prev sel K) = filter_loop mp mm prev sel K
       \<and> wf_frame (filter_loop mp mm prev sel K)
       \<and> (\<exists>n. filter_loop mp mm prev sel K = (filter_step mp mm ^^ n) K)"
  using assms
proof (induction mp mm prev sel K arbitrary: sc sl rule: filter_loop.induct)
  case (1 mp mm prev sel K)
  let ?s' = "next_selection mp mm K"
  let ?K' = "filter_step mp mm K"
  show ?case
  proof (cases "loop_test prev sel")
    case True
    have unfold: "filter_loop mp mm prev sel K = filter_loop mp mm (next_prev prev sel) (Some ?s') ?K'"
      using True by (subst filter_loop.simps) (simp add: Let_def filter_step_def)
    have np: "next_prev prev sel = Some (nrows K, ncols K)"
      using "1.prems" by simp
    have IH: "filter_step mp mm (filter_loop mp mm (next_prev prev sel) (Some ?s') ?K')
                = filter_loop mp mm (next_prev prev sel) (Some ?s') ?K'
       \<and> wf_frame (filter_loop mp mm (next_prev prev sel) (Some ?s') ?K')
       \<and> (\<exists>n. filter_loop mp mm (next_prev prev sel) (Some ?s') ?K' = (filter_step mp mm ^^ n) ?K')"
    proof (rule "1.IH" [OF True refl refl refl, unfolded filter_step_def [symmetric], of "fst ?s'" "snd ?s'"])
      show "wf_frame ?K'" using "1.prems"(1) by (rule wf_filter_step)
      show "Some ?s' = Some (fst ?s', snd ?s')" by simp
      show "sum_mask (fst ?s') = nrows ?K'" by (simp add: nrows_filter_step)
      show "sum_mask (snd ?s') = ncols ?K'" by (simp add: ncols_filter_step)
      show "\<exists>K0. wf_frame K0 \<and> filter_step mp mm K0 = ?K' \<and> p = (nrows K0, ncols K0)"
        if "next_prev prev sel = Some p" for p
        using that np "1.prems"(1) by auto
    qed
    then obtain n where n: "filter_loop mp mm (next_prev prev sel) (Some ?s') ?K' = (filter_step mp mm ^^ n) ?K'"
      by blast
    have "filter_loop mp mm prev sel K = (filter_step mp mm ^^ Suc n) K"
      unfolding unfold n by (simp add: funpow_swap1)
    with IH show ?thesis unfolding unfold by blast
  next
    case False
    have stop: "filter_loop mp mm prev sel K = K"
      using False by (subst filter_loop.simps) simp
    from False "1.prems" obtain p where p: "prev = Some p" "p = (nrows K, ncols K)"
      by (cases prev) auto
    from "1.prems"(5) [OF p(1)] obtain K0 where
      K0: "wf_frame K0" "filter_step mp mm K0 = K" "p = (nrows K0, ncols K0)" by blast
    have "filter_step mp mm K0 = K0"
      using K0 p by (intro filter_step_fixed) auto
    with K0 have "filter_step mp mm K = K" by simp
    moreover have "K = (filter_step mp mm ^^ 0) K" by simp
    ultimately show ?thesis unfolding stop using "1.prems"(1) by blast
  qed
qed

lemma DataFilter_unfold:
  "DataFilter mp mm X = filter_loop mp mm None (Some (next_selection mp mm X)) (filter_step mp mm X)"
  unfolding DataFilter_def
  by (subst filter_loop.simps) (simp add: Let_def filter_step_def)

lemma DataFilter_inv:
  assumes "wf_frame X"
  shows "filter_step mp mm (DataFilter mp mm X) = DataFilter mp mm X
       \<and> wf_frame (DataFilter mp mm X)
       \<and> (\<exists>n. DataFilter mp mm X = (filter_step mp mm ^^ n) X)"
proof -
  let ?s = "next_selection mp mm X"
  let ?K = "filter_step mp mm X"
  have a: "filter_step mp mm (filter_loop mp mm None (Some ?s) ?K) = filter_loop mp mm None (Some ?s) ?K
       \<and> wf_frame (filter_loop mp mm None (Some ?s) ?K)
       \<and> (\<exists>n. filter_loop mp mm None (Some ?s) ?K = (filter_step mp mm ^^ n) ?K)"
    by (rule filter_loop_inv [of _ _ "fst ?s" "snd ?s"])
       (simp_all add: wf_filter_step assms nrows_filter_step ncols_filter_step)
  then obtain n where "filter_loop mp mm None (Some ?s) ?K = (filter_step mp mm ^^ n) ?K" by blast
  then have "DataFilter mp mm X = (filter_step mp mm ^^ Suc n) X"
    unfolding DataFilter_unfold by (simp add: funpow_swap1)
  with a show ?thesis unfolding DataFilter_unfold by blast
qed

lemma DataFilter_sparse_example:
  "DataFilter 1 1 sparse_example =
     \<lparr>index = [0, 1], columns = [0, 1], vals = [[Present, Absent], [Absent, Present]]\<rparr>"
  unfolding sparse_example_def DataFilter_def by code_simp

lemma wf_sparse_example: "wf_frame sparse_example"
  by (simp add: wf_frame_def sparse_example_def)

lemma DataFilter_all_missing:
  "DataFilter 1 1 all_missing = \<lparr>index = [], columns = [], vals = []\<rparr>"
  unfolding all_missing_def DataFilter_def by code_simp

lemma subseq_select: "subseq (select m xs) xs"
proof (induction m arbitrary: xs)
  case Nil
  then show ?case by (simp add: select_def)
next
  case (Cons b m)
  show ?case
  proof (cases xs)
    case Nil
    then show ?thesis by (simp add: select_def)
  next
    case (Cons x xs')
    with Cons.IH [of xs'] show ?thesis
      by (cases b) (auto simp: select_def intro: list_emb_Cons)
  qed
qed

lemma index_filter_step: "subseq (index (filter_step mp mm K)) (index K)"
  by (simp add: filter_step_def restrict_def select_columns_def select_rows_def subseq_select)

lemma columns_filter_step: "subseq (columns (filter_step mp mm K)) (columns K)"
  by (simp add: filter_step_def restrict_def select_columns_def select_rows_def subseq_select)

lemma funpow_fixed: "f x = x \<Longrightarrow> (f ^^ n) x = x"
  by (induction n) simp_all

lemma filter_step_shrinks:
  assumes "wf_frame K" and "filter_step mp mm K \<noteq> K"
  shows "nrows (filter_step mp mm K) + ncols (filter_step mp mm K) < nrows K + ncols K"
proof (rule ccontr)
  assume "\<not> ?thesis"
  with nrows_filter_step_le [of mp mm K] ncols_filter_step_le [of mp mm K]
  have "nrows (filter_step mp mm K) = nrows K" "ncols (filter_step mp mm K) = ncols K"
    by linarith+
  with assms(1) have "filter_step mp mm K = K" by (rule filter_step_fixed)
  with assms(2) show False by simp
qed

lemma filter_step_stationary:
  "wf_frame K \<Longrightarrow> nrows K + ncols K \<le> n \<Longrightarrow>
   filter_step mp mm ((filter_step mp mm ^^ n) K) = (filter_step mp mm ^^ n) K"
proof (induction n arbitrary: K)
  case 0
  then have "nrows K = 0" "ncols K = 0" by simp_all
  with nrows_filter_step_le [of mp mm K] ncols_filter_step_le [of mp mm K]
  have "nrows (filter_step mp mm K) = nrows K" "ncols (filter_step mp mm K) = ncols K" by simp_all
  with 0(1) have "filter_step mp mm K = K" by (rule filter_step_fixed)
  then show ?case by simp
next
  case (Suc n)
  show ?case
  proof (cases "filter_step mp mm K = K")
    case True
    then have *: "(filter_step mp mm ^^ Suc n) K = K" by (rule funpow_fixed)
    show ?thesis unfolding * by (rule True)
  next
    case False
    with Suc.prems have "nrows (filter_step mp mm K) + ncols (filter_step mp mm K) \<le> n"
      using filter_step_shrinks [of K mp mm] by linarith
    with Suc.IH [of "filter_step mp mm K"] Suc.prems(1)
    have "filter_step mp mm ((filter_step mp mm ^^ n) (filter_step mp mm K))
            = (filter_step mp mm ^^ n) (filter_step mp mm K)"
      by (simp add: wf_filter_step)
    then show ?thesis by (simp add: funpow_swap1)
  qed
qed

lemma fixed_iterates_agree:
  assumes "f ((f ^^ n) x) = (f ^^ n) x" and "f ((f ^^ m) x) = (f ^^ m) x"
  shows "(f ^^ n) x = (f ^^ m) x"
proof -
  have *: "(f ^^ (a + b)) x = (f ^^ a) x" if "f ((f ^^ a) x) = (f ^^ a) x" for a b
  proof -
    have "(f ^^ (a + b)) x = (f ^^ b) ((f ^^ a) x)"
      by (simp add: add.commute [of a b] funpow_add)
    with funpow_fixed [of f "(f ^^ a) x" b] that show ?thesis by simp
  qed
  have "(f ^^ (n + m)) x = (f ^^ n) x" using assms(1) by (rule *)
  moreover have "(f ^^ (m + n)) x = (f ^^ m) x" using assms(2) by (rule *)
  ultimately show ?thesis by (simp add: add.commute)
qed

lemma passes_single_present: "filter_loop_passes 1 1 None None single_present = 3"
  unfolding single_present_def by code_simp

lemma filter_loop_passes_later:
  assumes "sel = Some (sc, sl)" and "sum_mask sc = nrows K" and "sum_mask sl = ncols K"
    and "prev = Some p"
  shows "filter_loop_passes mp mm prev sel K
           \<le> (if p = (nrows K, ncols K) then 0 else nrows K + ncols K + 1)"
  using assms
proof (induction mp mm prev sel K arbitrary: sc sl p rule: filter_loop_passes.induct)
  case (1 mp mm prev sel K)
  let ?s' = "next_selection mp mm K"
  let ?K' = "filter_step mp mm K"
  show ?case
  proof (cases "loop_test prev sel")
    case False
    then show ?thesis by (subst filter_loop_passes.simps) simp
  next
    case True
    with "1.prems" have ne: "p \<noteq> (nrows K, ncols K)" by auto
    have unfold: "filter_loop_passes mp mm prev sel K
        = Suc (filter_loop_passes mp mm (next_prev prev sel) (Some ?s') ?K')"
      using True by (subst filter_loop_passes.simps) (simp add: Let_def filter_step_def)
    have np: "next_prev prev sel = Some (nrows K, ncols K)" using "1.prems" by simp
    have IH: "filter_loop_passes mp mm (next_prev prev sel) (Some ?s') ?K'
        \<le> (if (nrows K, ncols K) = (nrows ?K', ncols ?K') then 0 else nrows ?K' + ncols ?K' + 1)"
      by (rule "1.IH" [OF True refl refl refl, unfolded filter_step_def [symmetric],
            of "fst ?s'" "snd ?s'"])
         (simp_all add: nrows_filter_step ncols_filter_step np)
    show ?thesis
    proof (cases "(nrows K, ncols K) = (nrows ?K', ncols ?K')")
      case True
      with IH ne show ?thesis unfolding unfold by simp
    next
      case False
      with nrows_filter_step_le [of mp mm K] ncols_filter_step_le [of mp mm K]
      have "nrows ?K' + ncols ?K' < nrows K + ncols K" by auto
      moreover from IH False
      have "filter_loop_passes mp mm (next_prev prev sel) (Some ?s') ?K'
              \<le> nrows ?K' + ncols ?K' + 1"
        by (simp only: if_False)
      ultimately show ?thesis unfolding unfold using ne by simp
    qed
  qed
qed

text \<open>
  The number of passes of the loop body: one more than the matrix needs to become
  stationary, and two on a matrix that is stationary from the start.
\<close>

lemma filter_loop_passes_bound:
  assumes "wf_frame X"
  shows "filter_loop_passes mp mm None None X \<le> max 2 (nrows X + ncols X + 1)"
proof -
  let ?s1 = "next_selection mp mm X"
  let ?K1 = "filter_step mp mm X"
  let ?s2 = "next_selection mp mm ?K1"
  let ?K2 = "filter_step mp mm ?K1"
  have 1: "filter_loop_passes mp mm None None X
      = Suc (filter_loop_passes mp mm None (Some ?s1) ?K1)"
    by (subst filter_loop_passes.simps) (simp add: Let_def filter_step_def)
  have 2: "filter_loop_passes mp mm None (Some ?s1) ?K1
      = Suc (filter_loop_passes mp mm (Some (nrows ?K1, ncols ?K1)) (Some ?s2) ?K2)"
    by (subst filter_loop_passes.simps, cases ?s1)
       (simp add: Let_def filter_step_def [symmetric] nrows_filter_step ncols_filter_step)
  have 3: "filter_loop_passes mp mm (Some (nrows ?K1, ncols ?K1)) (Some ?s2) ?K2
      \<le> (if (nrows ?K1, ncols ?K1) = (nrows ?K2, ncols ?K2) then 0 else nrows ?K2 + ncols ?K2 + 1)"
    by (rule filter_loop_passes_later [of _ "fst ?s2" "snd ?s2"])
       (simp_all add: nrows_filter_step ncols_filter_step)
  show ?thesis
  proof (cases "(nrows ?K1, ncols ?K1) = (nrows ?K2, ncols ?K2)")
    case True
    with 3 show ?thesis unfolding 1 2 by simp
  next
    case False
    with nrows_filter_step_le [of mp mm ?K1] ncols_filter_step_le [of mp mm ?K1]
    have lt2: "nrows ?K2 + ncols ?K2 < nrows ?K1 + ncols ?K1" by auto
    have "?K1 \<noteq> X" using False by auto
    with filter_step_shrinks [OF assms, of mp mm]
    have "nrows ?K1 + ncols ?K1 < nrows X + ncols X" by simp
    moreover from 3 False
    have "filter_loop_passes mp mm (Some (nrows ?K1, ncols ?K1)) (Some ?s2) ?K2
            \<le> nrows ?K2 + ncols ?K2 + 1"
      by (simp only: if_False)
    ultimately show ?thesis unfolding 1 2 using lt2 by simp
  qed
qed

text \<open>
  Claim C6.  The filtering loop ends on every rectangular input (\<open>filter_loop\<close> is a total
  function, by the termination proof above), and it ends at a fixed point of the loop body
  that the working matrix has reached after at most \<open>nrows X + ncols X\<close> passes: the
  result is the matrix after that many passes, and one more pass leaves it as it is.  Each
  pass keeps a subsequence of the rows and of the columns of the pass before, so neither
  count ever grows.  The loop itself runs one pass more than the matrix needs, the pass
  that sees the counts repeat: \<open>filter_loop_passes_bound\<close> bounds the number of its passes
  by \<open>nrows X + ncols X + 1\<close> (and by 2 on the empty frame), and on \<open>single_present\<close>
  it makes 3 passes.
\<close>

theorem filter_loop_reaches_fixed_point:
  assumes "wf_frame X"
  shows "DataFilter mp mm X = (filter_step mp mm ^^ (nrows X + ncols X)) X
       \<and> filter_step mp mm (DataFilter mp mm X) = DataFilter mp mm X
       \<and> (\<forall>k. subseq (index ((filter_step mp mm ^^ Suc k) X)) (index ((filter_step mp mm ^^ k) X))
            \<and> subseq (columns ((filter_step mp mm ^^ Suc k) X)) (columns ((filter_step mp mm ^^ k) X))
            \<and> nrows ((filter_step mp mm ^^ Suc k) X) \<le> nrows ((filter_step mp mm ^^ k) X)
            \<and> ncols ((filter_step mp mm ^^ Suc k) X) \<le> ncols ((filter_step mp mm ^^ k) X))"
proof -
  from DataFilter_inv [OF assms, of mp mm] obtain n where
    fixed: "filter_step mp mm (DataFilter mp mm X) = DataFilter mp mm X"
    and n: "DataFilter mp mm X = (filter_step mp mm ^^ n) X" by blast
  have "filter_step mp mm ((filter_step mp mm ^^ (nrows X + ncols X)) X)
          = (filter_step mp mm ^^ (nrows X + ncols X)) X"
    using assms by (rule filter_step_stationary) simp
  moreover have "filter_step mp mm ((filter_step mp mm ^^ n) X) = (filter_step mp mm ^^ n) X"
    using fixed n by simp
  ultimately have "(filter_step mp mm ^^ n) X = (filter_step mp mm ^^ (nrows X + ncols X)) X"
    by (rule fixed_iterates_agree [rotated])
  with n fixed show ?thesis
    by (simp add: index_filter_step columns_filter_step nrows_filter_step_le ncols_filter_step_le)
qed

theorem filter_loop_reaches_fixed_point_witness:
  "wf_frame sparse_example
   \<and> DataFilter 1 1 sparse_example = (filter_step 1 1 ^^ 6) sparse_example
   \<and> filter_step 1 1 (DataFilter 1 1 sparse_example) = DataFilter 1 1 sparse_example
   \<and> nrows (filter_step 1 1 sparse_example) \<le> nrows sparse_example"
proof -
  note fp = filter_loop_reaches_fixed_point [OF wf_sparse_example, of 1 1]
  have six: "nrows sparse_example + ncols sparse_example = 6"
    by (simp add: sparse_example_def nrows_def ncols_def)
  from fp have a: "DataFilter 1 1 sparse_example
        = (filter_step 1 1 ^^ (nrows sparse_example + ncols sparse_example)) sparse_example"
    and b: "filter_step 1 1 (DataFilter 1 1 sparse_example) = DataFilter 1 1 sparse_example"
    and c: "nrows ((filter_step 1 1 ^^ Suc 0) sparse_example)
              \<le> nrows ((filter_step 1 1 ^^ 0) sparse_example)"
    by blast+
  from c have c': "nrows (filter_step 1 1 sparse_example) \<le> nrows sparse_example" by simp
  show ?thesis using wf_sparse_example a [unfolded six] b c' by blast
qed

text \<open>
  Claim C7.  Filtering is idempotent: the filtering loop applied to its own result, with
  the same thresholds, returns that result unchanged.
\<close>

theorem filtering_idempotent:
  assumes "wf_frame X"
  shows "DataFilter mp mm (DataFilter mp mm X) = DataFilter mp mm X"
proof -
  let ?K = "DataFilter mp mm X"
  let ?s = "next_selection mp mm ?K"
  from DataFilter_inv [OF assms, of mp mm]
  have fixed: "filter_step mp mm ?K = ?K" by blast
  have sums: "sum_mask (fst ?s) = nrows ?K" "sum_mask (snd ?s) = ncols ?K"
    using nrows_filter_step [of mp mm ?K] ncols_filter_step [of mp mm ?K] fixed by simp_all
  have restrict: "restrict ?s ?K = ?K"
    using fixed by (simp add: filter_step_def)
  have "DataFilter mp mm ?K = filter_loop mp mm None (Some ?s) ?K"
    unfolding DataFilter_unfold [of mp mm ?K] fixed ..
  also have "\<dots> = filter_loop mp mm (Some (nrows ?K, ncols ?K)) (Some ?s) ?K"
    by (subst filter_loop.simps, cases ?s) (use sums restrict in \<open>simp add: Let_def\<close>)
  also have "\<dots> = ?K"
    by (subst filter_loop.simps, cases ?s) (use sums in simp)
  finally show ?thesis .
qed

theorem filtering_idempotent_witness:
  "wf_frame sparse_example
   \<and> DataFilter 1 1 (DataFilter 1 1 sparse_example) = DataFilter 1 1 sparse_example
   \<and> DataFilter 1 1 sparse_example \<noteq> sparse_example"
proof -
  have "DataFilter 1 1 sparse_example \<noteq> sparse_example"
    unfolding DataFilter_sparse_example by (simp add: sparse_example_def)
  with filtering_idempotent [OF wf_sparse_example, of 1 1] wf_sparse_example
  show ?thesis by blast
qed

lemma DataFilter_selected:
  assumes "wf_frame X"
  shows "list_all id (selectedCells_of mm (DataFilter mp mm X))"
    and "list_all id (selectedColumns_of mp (DataFilter mp mm X))"
proof -
  let ?K = "DataFilter mp mm X"
  from DataFilter_inv [OF assms, of mp mm]
  have fixed: "filter_step mp mm ?K = ?K" and wf: "wf_frame ?K" by blast+
  have sc: "sum_mask (selectedCells_of mm ?K) = length (vals ?K)"
    using nrows_filter_step [of mp mm ?K] fixed
    by (simp add: next_selection_def Let_def nrows_def)
  then show 1: "list_all id (selectedCells_of mm ?K)"
    by (intro sum_mask_all [of _ "length (vals ?K)"]) simp_all
  have rows: "select_rows (selectedCells_of mm ?K) ?K = ?K"
    using wf sc by (simp add: select_rows_def select_all wf_frame_def)
  have "sum_mask (selectedColumns_of mp ?K) = length (columns ?K)"
    using ncols_filter_step [of mp mm ?K] fixed
    by (simp add: next_selection_def Let_def ncols_def rows)
  then show "list_all id (selectedColumns_of mp ?K)"
    by (intro sum_mask_all [of _ "length (columns ?K)"]) simp_all
qed

text \<open>
  Claim C5.  In the matrix the filtering loop returns, every row has at least
  \<open>minMeasurementsPerCell\<close> entries that are not missing, counted over the retained
  columns, and every column has, over the retained rows, at least \<open>minPresence\<close> entries
  that are Present and at least one that is Absent.  This holds for all thresholds, those
  from 1 upwards among them.
\<close>

theorem filtered_matrix_invariant:
  assumes "wf_frame X"
  shows "(\<forall>row \<in> set (vals (DataFilter mp mm X)). mm \<le> int (count measured row))
       \<and> (\<forall>j < ncols (DataFilter mp mm X).
            mp \<le> int (count (\<lambda>e. e = Present) (col j (DataFilter mp mm X)))
          \<and> 1 \<le> count (\<lambda>e. e = Absent) (col j (DataFilter mp mm X)))"
proof -
  let ?K = "DataFilter mp mm X"
  from DataFilter_selected [OF assms, where mm = mm and mp = mp]
  have "\<forall>b \<in> set (selectedCells_of mm ?K). b" "\<forall>b \<in> set (selectedColumns_of mp ?K). b"
    by (simp_all add: list_all_iff)
  then show ?thesis
    by (auto simp: selectedCells_of_def selectedColumns_of_def ncols_def Suc_le_eq)
qed

theorem filtered_matrix_invariant_witness:
  "wf_frame sparse_example
   \<and> vals (DataFilter 1 1 sparse_example) ! 0 = [Present, Absent]
   \<and> 1 \<le> int (count measured (vals (DataFilter 1 1 sparse_example) ! 0))
   \<and> 1 \<le> int (count (\<lambda>e. e = Present) (col 1 (DataFilter 1 1 sparse_example)))
   \<and> 1 \<le> count (\<lambda>e. e = Absent) (col 1 (DataFilter 1 1 sparse_example))"
proof -
  note inv = filtered_matrix_invariant [OF wf_sparse_example, of 1 1]
  have row: "vals (DataFilter 1 1 sparse_example) ! 0 \<in> set (vals (DataFilter 1 1 sparse_example))"
    by (simp add: DataFilter_sparse_example)
  have col: "1 < ncols (DataFilter 1 1 sparse_example)"
    by (simp add: DataFilter_sparse_example ncols_def)
  from inv row have "1 \<le> int (count measured (vals (DataFilter 1 1 sparse_example) ! 0))"
    by blast
  moreover from inv col
  have "1 \<le> int (count (\<lambda>e. e = Present) (col 1 (DataFilter 1 1 sparse_example)))
      \<and> 1 \<le> count (\<lambda>e. e = Absent) (col 1 (DataFilter 1 1 sparse_example))"
    by blast
  ultimately show ?thesis
    using wf_sparse_example by (simp add: DataFilter_sparse_example)
qed

section \<open>Properties of the pairwise loop\<close>

lemma inner_loop_upt:
  "k \<le> cai \<Longrightarrow> cai < n \<Longrightarrow>
   inner_loop body cai [k..<n] s = foldl (\<lambda>s cbi. body cbi s) s [k..<Suc cai]"
proof (induction "cai - k" arbitrary: k s)
  case 0
  then have "k = cai" by simp
  with 0 show ?case by (simp add: upt_conv_Cons [of cai n])
next
  case (Suc d)
  then have lt: "k < cai" "k < n" by simp_all
  from Suc have IH: "inner_loop body cai [Suc k..<n] (body k s)
      = foldl (\<lambda>s cbi. body cbi s) (body k s) [Suc k..<Suc cai]"
    by (intro Suc.hyps(1)) simp_all
  have "[k..<Suc cai] = k # [Suc k..<Suc cai]"
    using lt by (simp add: upt_conv_Cons del: upt_Suc)
  with IH lt show ?case by (simp add: upt_conv_Cons [of k n] Let_def del: upt_Suc)
qed

lemma nested_loop_foldl:
  "nested_loop n body s =
     foldl (\<lambda>s cai. foldl (\<lambda>s cbi. body cai cbi s) s [0..<Suc cai]) s [0..<n]"
  unfolding nested_loop_def
  by (rule foldl_cong) (simp_all add: inner_loop_upt del: upt_Suc)

lemma foldl_invariant:
  "P s \<Longrightarrow> (\<And>x s. x \<in> set xs \<Longrightarrow> P s \<Longrightarrow> P (f s x)) \<Longrightarrow> P (foldl f s xs)"
  by (induction xs arbitrary: s) simp_all

lemma nested_loop_invariant:
  assumes "P s"
    and step: "\<And>cai cbi s. cbi \<le> cai \<Longrightarrow> cai < n \<Longrightarrow> P s \<Longrightarrow> P (body cai cbi s)"
  shows "P (nested_loop n body s)"
  unfolding nested_loop_foldl
proof (rule foldl_invariant [where P = P, OF assms(1)])
  fix cai s
  assume cai: "cai \<in> set [0..<n]" and s: "P s"
  show "P (foldl (\<lambda>s cbi. body cai cbi s) s [0..<Suc cai])"
  proof (rule foldl_invariant [where P = P, OF s])
    fix cbi s
    assume "cbi \<in> set [0..<Suc cai]" and "P s"
    with cai show "P (body cai cbi s)" by (intro step) auto
  qed
qed

text \<open>The last pair visited is the diagonal pair of the last row.\<close>

lemma nested_loop_last:
  "0 < n \<Longrightarrow> \<exists>s'. nested_loop n body s = body (n - 1) (n - 1) s'"
proof -
  assume "0 < n"
  then obtain m where n: "n = Suc m" by (cases n) simp_all
  show ?thesis unfolding nested_loop_foldl n by simp blast
qed

lemma assign_other:
  "(i, j) \<noteq> (a, b) \<Longrightarrow> assign M a b v ! i ! j = M ! i ! j"
proof (cases "i = a")
  case False
  then show ?thesis by (simp add: assign_def)
next
  case True
  assume "(i, j) \<noteq> (a, b)"
  with True have "j \<noteq> b" by simp
  with True show ?thesis by (cases "a < length M") (simp_all add: assign_def list_update_beyond)
qed

lemma zeros_nth: "i < n \<Longrightarrow> j < n \<Longrightarrow> zeros n ! i ! j = Fin 0"
  by (simp add: zeros_def)

lemma pairwise_upper_zero:
  assumes "i < j" and "j < length rawMatrix"
  shows "simMatrix (pairwise pOnes pZeros rawMatrix) ! i ! j = Fin 0
       \<and> differenceMatrix (pairwise pOnes pZeros rawMatrix) ! i ! j = Fin 0"
  unfolding pairwise_def Let_def
proof (rule nested_loop_invariant
    [where P = "\<lambda>s. simMatrix s ! i ! j = Fin 0 \<and> differenceMatrix s ! i ! j = Fin 0"])
  show "simMatrix \<lparr>simMatrix = zeros (length rawMatrix), differenceMatrix = zeros (length rawMatrix),
           jointMatrix = zeros (length rawMatrix), normalisationFactor = None\<rparr> ! i ! j = Fin 0 \<and>
        differenceMatrix \<lparr>simMatrix = zeros (length rawMatrix), differenceMatrix = zeros (length rawMatrix),
           jointMatrix = zeros (length rawMatrix), normalisationFactor = None\<rparr> ! i ! j = Fin 0"
    using assms by (simp add: zeros_nth)
next
  fix cai cbi :: nat and s :: locals
  assume "cbi \<le> cai" and "simMatrix s ! i ! j = Fin 0 \<and> differenceMatrix s ! i ! j = Fin 0"
  moreover from \<open>cbi \<le> cai\<close> assms(1) have "(i, j) \<noteq> (cai, cbi)" by auto
  ultimately show "simMatrix (pair_body pOnes pZeros rawMatrix cai cbi s) ! i ! j = Fin 0 \<and>
        differenceMatrix (pair_body pOnes pZeros rawMatrix cai cbi s) ! i ! j = Fin 0"
    by (simp add: pair_body_def Let_def assign_other)
qed

lemma pairwise_normalisationFactor:
  assumes "0 < length rawMatrix"
  shows "normalisationFactor (pairwise pOnes pZeros rawMatrix) =
           Some (normalisationFactor_of pOnes pZeros
                   (rawMatrix ! (length rawMatrix - 1)) (rawMatrix ! (length rawMatrix - 1)))"
proof -
  let ?n = "length rawMatrix"
  let ?init = "\<lparr>simMatrix = zeros ?n, differenceMatrix = zeros ?n, jointMatrix = zeros ?n,
                normalisationFactor = None\<rparr>"
  from nested_loop_last [OF assms, of "pair_body pOnes pZeros rawMatrix" ?init] obtain s' where
    "nested_loop ?n (pair_body pOnes pZeros rawMatrix) ?init
       = pair_body pOnes pZeros rawMatrix (?n - 1) (?n - 1) s'" ..
  then have "pairwise pOnes pZeros rawMatrix
       = pair_body pOnes pZeros rawMatrix (?n - 1) (?n - 1) s'"
    by (simp only: pairwise_def Let_def)
  then show ?thesis by (simp add: pair_body_def Let_def)
qed

section \<open>Failure on too few rows\<close>

text \<open>
  Claim C3.  When the filtering loop leaves fewer than two rows, \<open>sparseDistance\<close> fails
  with the error of line 49 (\<^verbatim>\<open>ValueError('Not enough data')\<close>, the error the
  specification calls InsufficientDataError) and returns no matrices.
\<close>

theorem insufficient_rows:
  "nrows (DataFilter mp mm X) < 2 \<Longrightarrow>
   sparseDistance X mp mm weight = Inl (ValueError ''Not enough data'')"
  by (simp add: sparseDistance_def)

theorem insufficient_rows_witness:
  "nrows (DataFilter 1 1 all_missing) < 2
   \<and> sparseDistance all_missing 1 1 True = Inl (ValueError ''Not enough data'')"
proof -
  have h: "nrows (DataFilter 1 1 all_missing) < 2"
    by (simp add: DataFilter_all_missing nrows_def)
  from h insufficient_rows [OF h] show ?thesis by simp
qed

section \<open>The assembled result\<close>

lemma DataFilter_three_cells: "DataFilter 1 1 three_cells = three_cells"
  unfolding three_cells_def DataFilter_def by code_simp

lemma DataFilter_no_features:
  "DataFilter 1 0 no_features = \<lparr>index = [0, 1], columns = [], vals = [[], []]\<rparr>"
  unfolding no_features_def DataFilter_def by code_simp

lemma weight_of_unweighted [simp]: "weight_of False v column = Fin 2"
proof -
  have "log 2 (1 / 4) = - 2"
    using log_nat_power [of 2 2 2] by (simp add: log_divide)
  then show ?thesis by (simp add: weight_of_def)
qed

lemmas eval_defs =
  sparseDistance_def pOnes_of_def pZeros_of_def pairwise_def nested_loop_def pair_body_def
  mirror_def mirror_body_def assign_def zeros_def labelled_def nrows_def
  normalisedSim_def sim_of_def pairwiseNormalizedDistance_def pairwiseUnnormalizedDistance_def
  normalisationFactor_of_def joinedDistance_def fsub_def vadd_def vscale_def is_value_def
  logical_and_def Let_def

lemma sparseDistance_three_cells:
  "sparseDistance three_cells 1 1 False =
     Inr \<lparr>out_keptX = three_cells,
          out_jointMatrix = labelled [0, 1, 2]
            [[Fin 0, Fin 1, Fin 1], [Fin 1, Fin 0, Fin 2], [Fin 1, Fin 2, Fin 0]],
          out_simMatrix = labelled [0, 1, 2]
            [[Fin 1, Fin 0, Fin 0], [Fin (1 / 2), Fin 1, Fin 0], [Fin (1 / 2), Fin 0, Fin 1]],
          out_differenceMatrix = labelled [0, 1, 2]
            [[Fin 0, Fin 0, Fin 0], [Fin (1 / 2), Fin 0, Fin 0], [Fin (1 / 2), Fin 1, Fin 0]],
          out_normalisationFactor = Fin 8\<rparr>"
  unfolding sparseDistance_def DataFilter_three_cells
  unfolding three_cells_def
  by (simp add: eval_defs upt_rec)

lemma sparseDistance_no_features:
  "sparseDistance no_features 1 0 True =
     Inr \<lparr>out_keptX = \<lparr>index = [0, 1], columns = [], vals = [[], []]\<rparr>,
          out_jointMatrix = labelled [0, 1] [[NaN, NaN], [NaN, NaN]],
          out_simMatrix = labelled [0, 1] [[NaN, Fin 0], [NaN, NaN]],
          out_differenceMatrix = labelled [0, 1] [[NaN, Fin 0], [NaN, NaN]],
          out_normalisationFactor = Fin 0\<rparr>"
  unfolding sparseDistance_def DataFilter_no_features
  by (simp add: eval_defs upt_rec)

lemma DataFilter_only_present:
  "DataFilter 1 1 only_present = \<lparr>index = [], columns = [], vals = []\<rparr>"
  unfolding only_present_def DataFilter_def by code_simp

lemma sparseDistance_returns:
  assumes "2 \<le> nrows (DataFilter mp mm X)"
  shows "sparseDistance X mp mm weight =
     (let keptX = DataFilter mp mm X;
          pOnes = pOnes_of weight keptX;
          pZeros = pZeros_of weight keptX;
          s = pairwise pOnes pZeros (vals keptX)
      in Inr \<lparr>out_keptX = keptX,
              out_jointMatrix = labelled (index keptX) (mirror (jointMatrix s)),
              out_simMatrix = labelled (index keptX) (simMatrix s),
              out_differenceMatrix = labelled (index keptX) (differenceMatrix s),
              out_normalisationFactor =
                normalisationFactor_of pOnes pZeros
                  (vals keptX ! (nrows keptX - 1)) (vals keptX ! (nrows keptX - 1))\<rparr>)"
proof -
  from assms have "0 < length (vals (DataFilter mp mm X))" unfolding nrows_def by linarith
  from pairwise_normalisationFactor [OF this] assms show ?thesis
    by (simp add: sparseDistance_def Let_def nrows_def)
qed

lemma sparseDistance_Inr:
  assumes "sparseDistance X mp mm weight = Inr r"
  shows "2 \<le> nrows (DataFilter mp mm X)"
  using assms by (cases "nrows (DataFilter mp mm X) < 2") (simp_all add: sparseDistance_def)

text \<open>
  Claim C2.  In the similarity matrix and in the difference matrix that \<open>sparseDistance\<close>
  returns, every entry above the diagonal is zero: the pairwise loop writes only at
  positions with row index at least the column index, and only the joint matrix is
  mirrored afterwards.
\<close>

theorem upper_triangle_zero:
  assumes "sparseDistance X mp mm weight = Inr r" and "i < j" and "j < nrows (out_keptX r)"
  shows "vals (out_simMatrix r) ! i ! j = Fin 0
       \<and> vals (out_differenceMatrix r) ! i ! j = Fin 0"
proof -
  let ?K = "DataFilter mp mm X"
  from assms(1) have two: "2 \<le> nrows ?K" by (rule sparseDistance_Inr)
  from assms(1) have r: "out_keptX r = ?K"
    "out_simMatrix r = labelled (index ?K) (simMatrix (pairwise (pOnes_of weight ?K) (pZeros_of weight ?K) (vals ?K)))"
    "out_differenceMatrix r = labelled (index ?K) (differenceMatrix (pairwise (pOnes_of weight ?K) (pZeros_of weight ?K) (vals ?K)))"
    unfolding sparseDistance_returns [OF two] Let_def by auto
  from assms(3) have "j < length (vals ?K)" by (simp add: r nrows_def)
  from pairwise_upper_zero [OF assms(2) this] show ?thesis
    by (simp add: r labelled_def)
qed

theorem upper_triangle_zero_witness:
  "sparseDistance three_cells 1 1 False =
     Inr \<lparr>out_keptX = three_cells,
          out_jointMatrix = labelled [0, 1, 2]
            [[Fin 0, Fin 1, Fin 1], [Fin 1, Fin 0, Fin 2], [Fin 1, Fin 2, Fin 0]],
          out_simMatrix = labelled [0, 1, 2]
            [[Fin 1, Fin 0, Fin 0], [Fin (1 / 2), Fin 1, Fin 0], [Fin (1 / 2), Fin 0, Fin 1]],
          out_differenceMatrix = labelled [0, 1, 2]
            [[Fin 0, Fin 0, Fin 0], [Fin (1 / 2), Fin 0, Fin 0], [Fin (1 / 2), Fin 1, Fin 0]],
          out_normalisationFactor = Fin 8\<rparr>
   \<and> (1::nat) < 2 \<and> 2 < nrows three_cells
   \<and> vals (labelled [0::nat, 1, 2]
            [[Fin 1, Fin 0, Fin 0], [Fin (1 / 2), Fin 1, Fin 0], [Fin (1 / 2), Fin 0, Fin 1]]) ! 1 ! 2 = Fin 0
   \<and> vals (labelled [0::nat, 1, 2]
            [[Fin 0, Fin 0, Fin 0], [Fin (1 / 2), Fin 0, Fin 0], [Fin (1 / 2), Fin 1, Fin 0]]) ! 1 ! 2 = Fin 0"
proof -
  have lt: "(1::nat) < 2" by simp
  have n: "2 < nrows three_cells" by (simp add: three_cells_def nrows_def)
  from upper_triangle_zero [OF sparseDistance_three_cells lt] n sparseDistance_three_cells lt
  show ?thesis by simp
qed

text \<open>
  Claim C10.  The fifth component of the result is the normalisation factor of one pair of
  rows, the pair the nested loop visits last: the last retained row with itself.
\<close>

theorem returned_normalisation_is_last_pair:
  assumes "sparseDistance X mp mm weight = Inr r"
  shows "out_normalisationFactor r =
           normalisationFactor_of (pOnes_of weight (out_keptX r)) (pZeros_of weight (out_keptX r))
             (vals (out_keptX r) ! (nrows (out_keptX r) - 1))
             (vals (out_keptX r) ! (nrows (out_keptX r) - 1))"
proof -
  from assms have "2 \<le> nrows (DataFilter mp mm X)" by (rule sparseDistance_Inr)
  from assms [unfolded sparseDistance_returns [OF this] Let_def] show ?thesis by auto
qed

theorem returned_normalisation_is_last_pair_witness:
  "sparseDistance three_cells 1 1 False =
     Inr \<lparr>out_keptX = three_cells,
          out_jointMatrix = labelled [0, 1, 2]
            [[Fin 0, Fin 1, Fin 1], [Fin 1, Fin 0, Fin 2], [Fin 1, Fin 2, Fin 0]],
          out_simMatrix = labelled [0, 1, 2]
            [[Fin 1, Fin 0, Fin 0], [Fin (1 / 2), Fin 1, Fin 0], [Fin (1 / 2), Fin 0, Fin 1]],
          out_differenceMatrix = labelled [0, 1, 2]
            [[Fin 0, Fin 0, Fin 0], [Fin (1 / 2), Fin 0, Fin 0], [Fin (1 / 2), Fin 1, Fin 0]],
          out_normalisationFactor = Fin 8\<rparr>
   \<and> normalisationFactor_of (pOnes_of False three_cells) (pZeros_of False three_cells)
        (vals three_cells ! (nrows three_cells - 1)) (vals three_cells ! (nrows three_cells - 1))
      = Fin 8"
  using returned_normalisation_is_last_pair [OF sparseDistance_three_cells]
    sparseDistance_three_cells
  by simp

text \<open>
  Claim C1 (not met by the code).  Only the joint matrix is mirrored (lines 114 to 118); the
  similarity and difference matrices keep the zeros they were created with above the
  diagonal.  On three cells with rows (1,0), (1,1), (0,0) the entries at (1,0) are 1/2
  in both matrices and the entries at (0,1) are 0, while the joint matrix is symmetric.
\<close>

theorem similarity_and_difference_not_mirrored:
  "\<exists>r. sparseDistance three_cells 1 1 False = Inr r
     \<and> vals (out_differenceMatrix r) ! 1 ! 0 = Fin (1 / 2)
     \<and> vals (out_differenceMatrix r) ! 0 ! 1 = Fin 0
     \<and> vals (out_simMatrix r) ! 1 ! 0 = Fin (1 / 2)
     \<and> vals (out_simMatrix r) ! 0 ! 1 = Fin 0
     \<and> vals (out_jointMatrix r) ! 1 ! 0 = Fin 1
     \<and> vals (out_jointMatrix r) ! 0 ! 1 = Fin 1"
  unfolding sparseDistance_three_cells by (simp add: labelled_def)

text \<open>
  Claim C4 (as amended).  The source has no check on the number of retained columns.  A
  fixed point with no column and at least two rows is returned, with normalisation factor
  zero; with \<open>minMeasurementsPerCell\<close> from 1 upwards there is no such fixed point: no
  column means no row, and the call fails with the error of the row check.
\<close>

theorem no_features_not_rejected:
  "(ncols (DataFilter mp mm X) = 0 \<and> 2 \<le> nrows (DataFilter mp mm X) \<longrightarrow>
      (\<exists>r. sparseDistance X mp mm weight = Inr r \<and> out_normalisationFactor r = Fin 0))
   \<and> (wf_frame X \<and> 1 \<le> mm \<and> ncols (DataFilter mp mm X) = 0 \<longrightarrow>
      nrows (DataFilter mp mm X) = 0
      \<and> sparseDistance X mp mm weight = Inl (ValueError ''Not enough data''))"
proof (intro conjI impI)
  let ?K = "DataFilter mp mm X"
  assume a: "ncols ?K = 0 \<and> 2 \<le> nrows ?K"
  then have "pOnes_of weight ?K = []" "pZeros_of weight ?K = []"
    by (simp_all add: pOnes_of_def pZeros_of_def ncols_def)
  then have "normalisationFactor_of (pOnes_of weight ?K) (pZeros_of weight ?K) u v = Fin 0" for u v
    by (simp add: normalisationFactor_of_def vscale_def)
  with a show "\<exists>r. sparseDistance X mp mm weight = Inr r \<and> out_normalisationFactor r = Fin 0"
    by (simp add: sparseDistance_returns Let_def)
next
  let ?K = "DataFilter mp mm X"
  assume a: "wf_frame X \<and> 1 \<le> mm \<and> ncols ?K = 0"
  then have wf: "wf_frame ?K" using DataFilter_inv [of X mp mm] by blast
  have "row \<notin> set (vals ?K)" for row
  proof
    assume row: "row \<in> set (vals ?K)"
    with wf a have "row = []" by (simp add: wf_frame_def list_all_iff ncols_def)
    moreover from DataFilter_selected(1) [of X mm mp] a row
    have "mm \<le> int (count measured row)"
      by (auto simp: list_all_iff selectedCells_of_def)
    ultimately show False using a by (simp add: count_def)
  qed
  then have "vals ?K = []" by (cases "vals ?K") auto
  then show zero: "nrows ?K = 0" by (simp add: nrows_def)
  then show "sparseDistance X mp mm weight = Inl (ValueError ''Not enough data'')"
    by (simp add: sparseDistance_def)
qed

theorem no_features_not_rejected_witness:
  "ncols (DataFilter 1 0 no_features) = 0 \<and> 2 \<le> nrows (DataFilter 1 0 no_features)
   \<and> (\<exists>r. sparseDistance no_features 1 0 True = Inr r \<and> out_normalisationFactor r = Fin 0)
   \<and> wf_frame only_present \<and> (1::int) \<le> 1 \<and> ncols (DataFilter 1 1 only_present) = 0
   \<and> nrows (DataFilter 1 1 only_present) = 0
   \<and> sparseDistance only_present 1 1 True = Inl (ValueError ''Not enough data'')"
proof -
  have a: "ncols (DataFilter 1 0 no_features) = 0 \<and> 2 \<le> nrows (DataFilter 1 0 no_features)"
    by (simp add: DataFilter_no_features ncols_def nrows_def)
  have "wf_frame only_present" by (simp add: wf_frame_def only_present_def)
  moreover have "ncols (DataFilter 1 1 only_present) = 0"
    by (simp add: DataFilter_only_present ncols_def)
  ultimately
  have b: "wf_frame only_present \<and> (1::int) \<le> 1 \<and> ncols (DataFilter 1 1 only_present) = 0"
    by simp
  from no_features_not_rejected [of 1 0 no_features True] a
  have "\<exists>r. sparseDistance no_features 1 0 True = Inr r \<and> out_normalisationFactor r = Fin 0"
    by blast
  moreover from no_features_not_rejected [of 1 1 only_present True] b
  have "nrows (DataFilter 1 1 only_present) = 0
      \<and> sparseDistance only_present 1 1 True = Inl (ValueError ''Not enough data'')"
    by blast
  ultimately show ?thesis using a b by blast
qed

text \<open>
  Claim C4 as it was stated fails: with \<open>minMeasurementsPerCell = 0\<close> two cells without
  a measurement keep both rows and no column, and the call returns matrices of NaN
  entries instead of failing.
\<close>

theorem no_features_counterexample:
  "ncols (DataFilter 1 0 no_features) = 0 \<and> nrows (DataFilter 1 0 no_features) = 2
   \<and> sparseDistance no_features 1 0 True =
     Inr \<lparr>out_keptX = \<lparr>index = [0, 1], columns = [], vals = [[], []]\<rparr>,
          out_jointMatrix = labelled [0, 1] [[NaN, NaN], [NaN, NaN]],
          out_simMatrix = labelled [0, 1] [[NaN, Fin 0], [NaN, NaN]],
          out_differenceMatrix = labelled [0, 1] [[NaN, Fin 0], [NaN, NaN]],
          out_normalisationFactor = Fin 0\<rparr>"
  using sparseDistance_no_features
  by (simp add: DataFilter_no_features ncols_def nrows_def)

section \<open>Feature weights and the normalisation factor\<close>

lemma count_col_card:
  "count (\<lambda>e. e = v) (col j K) = card {i. i < nrows K \<and> vals K ! i ! j = v}"
proof -
  have "{i. i < length (vals K) \<and> map (\<lambda>row. row ! j) (vals K) ! i = v}
      = {i. i < length (vals K) \<and> vals K ! i ! j = v}"
    by auto
  then show ?thesis
    by (simp add: count_def col_def nrows_def length_filter_conv_card)
qed

lemma filter_upt_eq: "filter (\<lambda>i. i = j) [0..<n] = (if j < n then [j] else [])"
  by (induction n) auto

lemma label_positions_distinct:
  assumes "distinct (columns K)" and "j < ncols K"
  shows "label_positions (columns K ! j) K = [j]"
proof -
  have "filter (\<lambda>i. columns K ! i = columns K ! j) [0..<length (columns K)]
      = filter (\<lambda>i. i = j) [0..<length (columns K)]"
    using assms by (intro filter_cong refl) (simp add: nth_eq_iff_index_eq ncols_def)
  with assms(2) show ?thesis by (simp add: label_positions_def filter_upt_eq ncols_def)
qed

text \<open>With distinct labels the selection by label is the column at the label's position.\<close>

lemma getitem_distinct:
  assumes "distinct (columns K)" and "j < ncols K"
  shows "concat (getitem (columns K ! j) K) = col j K"
    and "length (getitem (columns K ! j) K) = nrows K"
proof -
  have "concat (map (\<lambda>row. [row ! j]) rows) = map (\<lambda>row. row ! j) rows" for rows :: "'c list list"
    by (induction rows) simp_all
  then show "concat (getitem (columns K ! j) K) = col j K"
    by (simp add: getitem_def label_positions_distinct [OF assms] col_def)
  show "length (getitem (columns K ! j) K) = nrows K"
    by (simp add: getitem_def nrows_def)
qed

lemma pOnes_of_nth:
  "j < ncols K \<Longrightarrow> pOnes_of weight K ! j = weight_of weight Present (getitem (columns K ! j) K)"
  "j < ncols K \<Longrightarrow> pZeros_of weight K ! j = weight_of weight Absent (getitem (columns K ! j) K)"
  by (simp_all add: pOnes_of_def pZeros_of_def ncols_def)

lemma weight_of_weighted:
  assumes "0 < nrows K" and "distinct (columns K)" and "j < ncols K"
  shows "weight_of True v (getitem (columns K ! j) K) =
           (if fraction v j K = 0 then PInf else Fin (- log 2 ((fraction v j K)\<^sup>2)))"
proof -
  let ?p = "fraction v j K"
  let ?column = "getitem (columns K ! j) K"
  note sel = getitem_distinct [OF assms(2,3)]
  have "fdiv (Fin (real (count (\<lambda>e. e = v) (concat ?column)))) (Fin (real (length ?column)))
          = Fin ?p"
    using assms(1) unfolding sel count_col_card fraction_def by simp
  then have w: "weight_of True v ?column = fneg (flog2 (fsq (Fin ?p)))"
    by (simp only: weight_of_def if_True)
  show ?thesis
  proof (cases "?p = 0")
    case True
    then show ?thesis unfolding w by simp
  next
    case False
    then have "0 < ?p * ?p" by (simp add: zero_less_mult_iff less_le not_le)
    with False show ?thesis unfolding w by (simp add: power2_eq_square)
  qed
qed

text \<open>
  Claim C8.  On a frame with distinct column labels and \<open>weight\<close> set, the weights of the
  feature in column \<open>j\<close> are \<open>- log\<^sub>2 (p1\<^sup>2)\<close> and \<open>- log\<^sub>2 (p0\<^sup>2)\<close>, where \<open>p1\<close> and \<open>p0\<close>
  are the fractions of all retained rows in which the feature is Present and Absent (at a
  fraction of zero numpy gives plus infinity).  With \<open>weight\<close> unset both weights are 2
  for every feature.
\<close>

theorem feature_weights:
  assumes "distinct (columns K)" and "j < ncols K" and "0 < nrows K"
  shows "pOnes_of True K ! j =
           (if fraction Present j K = 0 then PInf
            else Fin (- log 2 ((fraction Present j K)\<^sup>2)))
       \<and> pZeros_of True K ! j =
           (if fraction Absent j K = 0 then PInf
            else Fin (- log 2 ((fraction Absent j K)\<^sup>2)))
       \<and> pOnes_of False K ! j = Fin 2 \<and> pZeros_of False K ! j = Fin 2"
  using assms by (simp add: pOnes_of_nth weight_of_weighted)

lemma fraction_count:
  "fraction v j K = real (count (\<lambda>e. e = v) (col j K)) / real (nrows K)"
  by (simp add: fraction_def count_col_card)

lemma fraction_four_cells:
  "fraction Present 0 four_cells = 1 / 4" "fraction Absent 0 four_cells = 1 / 2"
  by (simp_all add: fraction_count four_cells_def nrows_def count_def col_def)

lemma log2_sixteenth: "log 2 (1 / 16) = - 4"
  using log_nat_power [of 2 2 4] by (simp add: log_divide)

lemma log2_quarter: "log 2 (1 / 4) = - 2"
  using log_nat_power [of 2 2 2] by (simp add: log_divide)

theorem feature_weights_witness:
  "distinct (columns four_cells) \<and> 0 < ncols four_cells \<and> 0 < nrows four_cells
   \<and> fraction Present 0 four_cells = 1 / 4 \<and> fraction Absent 0 four_cells = 1 / 2
   \<and> pOnes_of True four_cells ! 0 = Fin 4 \<and> pZeros_of True four_cells ! 0 = Fin 2
   \<and> pOnes_of False four_cells ! 0 = Fin 2 \<and> pZeros_of False four_cells ! 0 = Fin 2"
proof -
  have d: "distinct (columns four_cells)"
    and c: "0 < ncols four_cells" and r: "0 < nrows four_cells"
    by (simp_all add: four_cells_def ncols_def nrows_def)
  from feature_weights [OF d c r] d c r show ?thesis
    by (simp add: fraction_four_cells power2_eq_square log2_quarter log2_sixteenth)
qed

text \<open>
  Where a column label is repeated the selection by label takes both columns, and the
  weights are not those of the single columns: on \<open>repeated_label\<close> every entry of the
  selection is counted over two rows, the fraction is 1 and both weights are 0.
\<close>

lemma weights_repeated_label:
  "pOnes_of True repeated_label = [Fin 0, Fin 0]"
  "pZeros_of True repeated_label = [Fin 0, Fin 0]"
  by (simp_all add: pOnes_of_def pZeros_of_def weight_of_def getitem_def label_positions_def
      repeated_label_def count_def upt_rec)

lemma finite_positive_nonneg: "finite_positive x \<Longrightarrow> finite_nonneg x"
  by (cases x) simp_all

lemma fadd_nonneg: "finite_nonneg a \<Longrightarrow> finite_nonneg b \<Longrightarrow> finite_nonneg (fadd a b)"
  by (cases a; cases b) simp_all

lemma fadd_positive_left: "finite_positive a \<Longrightarrow> finite_nonneg b \<Longrightarrow> finite_positive (fadd a b)"
  by (cases a; cases b) simp_all

lemma fadd_positive_right: "finite_nonneg a \<Longrightarrow> finite_positive b \<Longrightarrow> finite_positive (fadd a b)"
  by (cases a; cases b) simp_all

lemma fscale_nonneg: "finite_positive w \<Longrightarrow> finite_nonneg (fscale w b)"
  by (cases w; cases b) simp_all

lemma fdiv_finite: "finite_nonneg a \<Longrightarrow> finite_positive b \<Longrightarrow> is_finite (fdiv a b)"
  by (cases a; cases b) simp_all

lemma vscale_nonneg: "list_all finite_positive ws \<Longrightarrow> list_all finite_nonneg (vscale ws bs)"
  by (auto simp: vscale_def list_all_iff fscale_nonneg dest: set_zip_leftD)

lemma vadd_positive:
  assumes "list_all finite_positive xs" and "list_all finite_positive ys"
  shows "list_all finite_positive (vadd xs ys)"
proof -
  have "finite_positive (fadd a b)" if "(a, b) \<in> set (zip xs ys)" for a b
  proof -
    from that assms have "finite_positive a" "finite_positive b"
      by (auto simp: list_all_iff dest: set_zip_leftD set_zip_rightD)
    then show ?thesis by (simp add: fadd_positive_left finite_positive_nonneg)
  qed
  then show ?thesis by (auto simp: vadd_def list_all_iff)
qed

lemma vadd_nonneg:
  assumes "list_all finite_nonneg xs" and "list_all finite_nonneg ys"
  shows "list_all finite_nonneg (vadd xs ys)"
proof -
  have "finite_nonneg (fadd a b)" if "(a, b) \<in> set (zip xs ys)" for a b
  proof -
    from that assms have "finite_nonneg a" "finite_nonneg b"
      by (auto simp: list_all_iff dest: set_zip_leftD set_zip_rightD)
    then show ?thesis by (rule fadd_nonneg)
  qed
  then show ?thesis by (auto simp: vadd_def list_all_iff)
qed

lemma fsum_nonneg: "list_all finite_nonneg xs \<Longrightarrow> finite_nonneg (fsum xs)"
  by (induction xs) (simp_all add: fadd_nonneg)

lemma fsum_positive:
  "list_all finite_nonneg xs \<Longrightarrow> x \<in> set xs \<Longrightarrow> finite_positive x \<Longrightarrow>
   finite_positive (fsum xs)"
proof (induction xs)
  case Nil
  then show ?case by simp
next
  case (Cons y ys)
  show ?case
  proof (cases "x = y")
    case True
    with Cons.prems show ?thesis by (simp add: fadd_positive_left fsum_nonneg)
  next
    case False
    with Cons show ?thesis by (simp add: fadd_positive_right)
  qed
qed

lemma count_present_absent:
  "count (\<lambda>e. e = Present) xs + count (\<lambda>e. e = Absent) xs \<le> length xs"
  unfolding count_def by (induction xs) auto

lemma weight_of_positive:
  assumes "1 \<le> count (\<lambda>e. e = Present) (col j K)" and "1 \<le> count (\<lambda>e. e = Absent) (col j K)"
    and v: "v = Present \<or> v = Absent"
    and d: "distinct (columns K)" and j: "j < ncols K"
  shows "0 < fraction v j K \<and> finite_positive (weight_of weight v (getitem (columns K ! j) K))"
proof -
  let ?n = "nrows K"
  let ?c = "count (\<lambda>e. e = v) (col j K)"
  have len: "length (col j K) = ?n" by (simp add: col_def nrows_def)
  from count_present_absent [of "col j K"] assms(1,2) v
  have c: "1 \<le> ?c" "?c < ?n" unfolding len by auto
  then have n: "0 < ?n" by simp
  have p: "fraction v j K = real ?c / real ?n" by (rule fraction_count)
  from c have p0: "0 < fraction v j K" and p1: "fraction v j K < 1"
    unfolding p by simp_all
  have sq0: "0 < (fraction v j K)\<^sup>2" using p0 by simp
  have sq1: "(fraction v j K)\<^sup>2 < 1"
    using power_strict_mono [of "fraction v j K" 1 2] p0 p1 by simp
  have "log 2 ((fraction v j K)\<^sup>2) < 0" using sq0 sq1 by simp
  with p0 show ?thesis
    by (cases weight) (simp_all add: weight_of_weighted [OF n d j])
qed

lemma distinct_select: "distinct xs \<Longrightarrow> distinct (select m xs)"
proof -
  assume "distinct xs"
  then have "distinct (map snd (zip m xs))" by (simp add: map_snd_zip_take)
  then show ?thesis unfolding select_def by (rule distinct_map_filter)
qed

lemma distinct_columns_filter_step:
  "distinct (columns K) \<Longrightarrow> distinct (columns (filter_step mp mm K))"
  by (simp add: filter_step_def restrict_def select_columns_def select_rows_def distinct_select)

lemma distinct_columns_DataFilter:
  assumes "wf_frame X" and "distinct (columns X)"
  shows "distinct (columns (DataFilter mp mm X))"
proof -
  have "distinct (columns ((filter_step mp mm ^^ n) X))" for n
    by (induction n) (simp_all add: assms(2) distinct_columns_filter_step)
  moreover from DataFilter_inv [OF assms(1), of mp mm]
  obtain n where "DataFilter mp mm X = (filter_step mp mm ^^ n) X" by blast
  ultimately show ?thesis by simp
qed

lemma DataFilter_columns:
  assumes "wf_frame X" and "j < ncols (DataFilter mp mm X)"
  shows "mp \<le> int (count (\<lambda>e. e = Present) (col j (DataFilter mp mm X)))"
    and "1 \<le> count (\<lambda>e. e = Absent) (col j (DataFilter mp mm X))"
  using DataFilter_selected(2) [OF assms(1), of mp mm] assms(2)
  by (auto simp: list_all_iff selectedColumns_of_def ncols_def Suc_le_eq)

lemma DataFilter_rows:
  assumes "wf_frame X" and "row \<in> set (vals (DataFilter mp mm X))"
  shows "mm \<le> int (count measured row)" and "length row = ncols (DataFilter mp mm X)"
proof -
  show "mm \<le> int (count measured row)"
    using DataFilter_selected(1) [OF assms(1), of mm mp] assms(2)
    by (auto simp: list_all_iff selectedCells_of_def)
  from DataFilter_inv [OF assms(1), of mp mm] have "wf_frame (DataFilter mp mm X)" by blast
  with assms(2) show "length row = ncols (DataFilter mp mm X)"
    by (simp add: wf_frame_def list_all_iff ncols_def)
qed

lemma row_has_measured:
  assumes "1 \<le> count measured a"
  shows "\<exists>j < length a. a ! j = Present \<or> a ! j = Absent"
proof -
  from assms have "filter measured a \<noteq> []" by (auto simp: count_def)
  then obtain e where "e \<in> set a" "measured e"
    by (metis filter_False)
  then obtain j where "j < length a" "a ! j = e" by (auto simp: in_set_conv_nth)
  with \<open>measured e\<close> show ?thesis by (cases e) auto
qed

lemma fsum_vscale_nonneg:
  "list_all finite_positive ws \<Longrightarrow> finite_nonneg (fsum (vscale ws bs))"
  by (simp add: fsum_nonneg vscale_nonneg)

lemma fsum_vscale_positive:
  assumes ws: "list_all finite_positive ws" and j: "j < length ws" "j < length a" and v: "a ! j = v"
  shows "finite_positive (fsum (vscale ws (is_value v a)))"
proof -
  let ?xs = "vscale ws (is_value v a)"
  have len: "j < length ?xs" using j by (simp add: vscale_def is_value_def)
  have "?xs ! j = ws ! j" using j v by (simp add: vscale_def is_value_def)
  moreover from ws j have "finite_positive (ws ! j)" by (simp add: list_all_length)
  ultimately have "finite_positive (?xs ! j)" by simp
  moreover have "?xs ! j \<in> set ?xs" using len by (rule nth_mem)
  ultimately show ?thesis
    using vscale_nonneg [OF ws] by (intro fsum_positive [where x = "?xs ! j"]) simp_all
qed

lemma normalisation_positive:
  assumes pO: "list_all finite_positive pO" and pZ: "list_all finite_positive pZ"
    and len: "length pO = length a" "length pZ = length a"
    and j: "j < length a" "a ! j = Present \<or> a ! j = Absent"
  shows "finite_positive (normalisationFactor_of pO pZ a b)"
proof -
  have "finite_positive (fadd (fsum (vscale pO (is_value Present a)))
                              (fsum (vscale pZ (is_value Absent a))))"
  proof (cases "a ! j = Present")
    case True
    with pO len j have "finite_positive (fsum (vscale pO (is_value Present a)))"
      by (intro fsum_vscale_positive [where j = j]) simp_all
    then show ?thesis by (rule fadd_positive_left) (rule fsum_vscale_nonneg [OF pZ])
  next
    case False
    with j have "a ! j = Absent" by simp
    with pZ len j have "finite_positive (fsum (vscale pZ (is_value Absent a)))"
      by (intro fsum_vscale_positive [where j = j]) simp_all
    then show ?thesis by (intro fadd_positive_right fsum_vscale_nonneg [OF pO])
  qed
  then have "finite_positive (fadd (fadd (fsum (vscale pO (is_value Present a)))
                                    (fsum (vscale pZ (is_value Absent a))))
                              (fsum (vscale pO (is_value Present b))))"
    by (rule fadd_positive_left) (rule fsum_vscale_nonneg [OF pO])
  then show ?thesis
    unfolding normalisationFactor_of_def
    by (rule fadd_positive_left) (rule fsum_vscale_nonneg [OF pZ])
qed

lemma distance_numerator_nonneg:
  assumes "list_all finite_positive pO" and "list_all finite_positive pZ"
  shows "finite_nonneg (fsum (pairwiseUnnormalizedDistance pO pZ a b))"
  unfolding pairwiseUnnormalizedDistance_def
  by (intro fsum_nonneg vadd_nonneg vscale_nonneg vadd_positive assms)

lemma sim_nonneg:
  assumes "list_all finite_positive pO" and "list_all finite_positive pZ"
  shows "finite_nonneg (sim_of pO pZ a b)"
  unfolding sim_of_def
  by (intro fadd_nonneg fsum_nonneg vscale_nonneg vadd_positive assms)

lemma weights_positive:
  assumes "wf_frame X" and "1 \<le> mp" and "distinct (columns X)"
  shows "list_all finite_positive (pOnes_of weight (DataFilter mp mm X))"
    and "list_all finite_positive (pZeros_of weight (DataFilter mp mm X))"
proof -
  let ?K = "DataFilter mp mm X"
  note d = distinct_columns_DataFilter [OF assms(1,3), of mp mm]
  have "finite_positive (weight_of weight v (getitem (columns ?K ! j) ?K))"
    if "j < ncols ?K" and "v = Present \<or> v = Absent" for j v
  proof -
    from DataFilter_columns [OF assms(1) that(1)] assms(2)
    have "1 \<le> count (\<lambda>e. e = Present) (col j ?K)" "1 \<le> count (\<lambda>e. e = Absent) (col j ?K)"
      by simp_all
    from weight_of_positive [OF this that(2) d that(1)] show ?thesis by blast
  qed
  then show "list_all finite_positive (pOnes_of weight ?K)"
    and "list_all finite_positive (pZeros_of weight ?K)"
    by (simp_all add: list_all_length pOnes_of_nth ncols_def pOnes_of_def pZeros_of_def)
qed

text \<open>
  Claim C9.  On a frame with distinct column labels and with both thresholds at
  least 1, every retained feature is Present in a
  positive fraction of the retained rows and Absent in a positive fraction, both its
  weights are finite and strictly positive, and for every pair of retained rows the
  normalisation factor is finite and strictly positive, so that the two divisions by it
  give finite values.
\<close>

theorem weights_and_normalisation_positive:
  assumes "wf_frame X" and "distinct (columns X)" and "1 \<le> mp" and "1 \<le> mm"
  shows "(\<forall>j < ncols (DataFilter mp mm X).
            0 < fraction Present j (DataFilter mp mm X)
          \<and> 0 < fraction Absent j (DataFilter mp mm X)
          \<and> finite_positive (pOnes_of weight (DataFilter mp mm X) ! j)
          \<and> finite_positive (pZeros_of weight (DataFilter mp mm X) ! j))
       \<and> (\<forall>a \<in> set (vals (DataFilter mp mm X)). \<forall>b \<in> set (vals (DataFilter mp mm X)).
            finite_positive
              (normalisationFactor_of (pOnes_of weight (DataFilter mp mm X))
                 (pZeros_of weight (DataFilter mp mm X)) a b)
          \<and> is_finite
              (pairwiseNormalizedDistance (pOnes_of weight (DataFilter mp mm X))
                 (pZeros_of weight (DataFilter mp mm X)) a b)
          \<and> is_finite
              (normalisedSim (pOnes_of weight (DataFilter mp mm X))
                 (pZeros_of weight (DataFilter mp mm X)) a b))"
proof (intro conjI allI impI ballI)
  let ?K = "DataFilter mp mm X"
  let ?pO = "pOnes_of weight ?K"
  let ?pZ = "pZeros_of weight ?K"
  note pO = weights_positive(1) [OF assms(1,3,2), of weight mm]
  note pZ = weights_positive(2) [OF assms(1,3,2), of weight mm]
  note d = distinct_columns_DataFilter [OF assms(1,2), of mp mm]
  {
    fix j assume j: "j < ncols ?K"
    from DataFilter_columns [OF assms(1) j] assms(3)
    have c: "1 \<le> count (\<lambda>e. e = Present) (col j ?K)" "1 \<le> count (\<lambda>e. e = Absent) (col j ?K)"
      by simp_all
    from weight_of_positive [OF c _ d j, of Present] show "0 < fraction Present j ?K" by simp
    from weight_of_positive [OF c _ d j, of Absent] show "0 < fraction Absent j ?K" by simp
    from pO j show "finite_positive (?pO ! j)"
      by (simp add: list_all_length pOnes_of_def ncols_def)
    from pZ j show "finite_positive (?pZ ! j)"
      by (simp add: list_all_length pZeros_of_def ncols_def)
  }
  {
    fix a b assume a: "a \<in> set (vals ?K)" and b: "b \<in> set (vals ?K)"
    from DataFilter_rows [OF assms(1) a] assms(4)
    have "1 \<le> count measured a" and len: "length a = ncols ?K" by simp_all
    then obtain j where j: "j < length a" "a ! j = Present \<or> a ! j = Absent"
      using row_has_measured by blast
    have lens: "length ?pO = length a" "length ?pZ = length a"
      by (simp_all add: len pOnes_of_def pZeros_of_def ncols_def)
    from normalisation_positive [OF pO pZ lens j]
    show n: "finite_positive (normalisationFactor_of ?pO ?pZ a b)" .
    show "is_finite (pairwiseNormalizedDistance ?pO ?pZ a b)"
      unfolding pairwiseNormalizedDistance_def
      by (rule fdiv_finite [OF distance_numerator_nonneg [OF pO pZ] n])
    show "is_finite (normalisedSim ?pO ?pZ a b)"
      unfolding normalisedSim_def
      by (rule fdiv_finite [OF sim_nonneg [OF pO pZ] n])
  }
qed

theorem weights_and_normalisation_positive_witness:
  "wf_frame sparse_example \<and> distinct (columns sparse_example) \<and> (1::int) \<le> 1
   \<and> DataFilter 1 1 sparse_example = two_cells
   \<and> 0 < fraction Present 0 two_cells \<and> 0 < fraction Absent 0 two_cells
   \<and> finite_positive (pOnes_of True two_cells ! 0)
   \<and> finite_positive (pZeros_of True two_cells ! 0)
   \<and> finite_positive
        (normalisationFactor_of (pOnes_of True two_cells) (pZeros_of True two_cells)
           [Present, Absent] [Absent, Present])
   \<and> is_finite
        (pairwiseNormalizedDistance (pOnes_of True two_cells) (pZeros_of True two_cells)
           [Present, Absent] [Absent, Present])
   \<and> is_finite
        (normalisedSim (pOnes_of True two_cells) (pZeros_of True two_cells)
           [Present, Absent] [Absent, Present])"
proof -
  have one: "(1::int) \<le> 1" by simp
  have d: "distinct (columns sparse_example)" by (simp add: sparse_example_def)
  have K: "DataFilter 1 1 sparse_example = two_cells"
    by (simp add: DataFilter_sparse_example two_cells_def)
  note pos =
    weights_and_normalisation_positive [OF wf_sparse_example d one one, of True, unfolded K]
  have j: "0 < ncols two_cells" by (simp add: two_cells_def ncols_def)
  have a: "[Present, Absent] \<in> set (vals two_cells)"
    and b: "[Absent, Present] \<in> set (vals two_cells)"
    by (simp_all add: two_cells_def)
  from pos j have "0 < fraction Present 0 two_cells \<and> 0 < fraction Absent 0 two_cells
      \<and> finite_positive (pOnes_of True two_cells ! 0)
      \<and> finite_positive (pZeros_of True two_cells ! 0)"
    by blast
  moreover from pos a b have "finite_positive
        (normalisationFactor_of (pOnes_of True two_cells) (pZeros_of True two_cells)
           [Present, Absent] [Absent, Present])
   \<and> is_finite
        (pairwiseNormalizedDistance (pOnes_of True two_cells) (pZeros_of True two_cells)
           [Present, Absent] [Absent, Present])
   \<and> is_finite
        (normalisedSim (pOnes_of True two_cells) (pZeros_of True two_cells)
           [Present, Absent] [Absent, Present])"
    by blast
  ultimately show ?thesis using wf_sparse_example d one K by blast
qed

text \<open>
  The distinct labels are needed.  On \<open>repeated_label\<close>, whose two columns carry one
  label, the filtering loop keeps everything, both weights of both columns are 0, every
  normalisation factor is 0 and the computed entries are NaN.
\<close>

lemma DataFilter_repeated_label: "DataFilter 1 1 repeated_label = repeated_label"
  unfolding repeated_label_def DataFilter_def by code_simp

lemma sparseDistance_repeated_label:
  "sparseDistance repeated_label 1 1 True =
     Inr \<lparr>out_keptX = repeated_label,
          out_jointMatrix = labelled [0, 1] [[NaN, NaN], [NaN, NaN]],
          out_simMatrix = labelled [0, 1] [[NaN, Fin 0], [NaN, NaN]],
          out_differenceMatrix = labelled [0, 1] [[NaN, Fin 0], [NaN, NaN]],
          out_normalisationFactor = Fin 0\<rparr>"
  unfolding sparseDistance_def Let_def DataFilter_repeated_label weights_repeated_label
  unfolding repeated_label_def
  by (simp add: eval_defs upt_rec)

section \<open>Symmetry of the joint matrix\<close>

lemma square_zeros: "square n (zeros n)"
  by (simp add: square_def zeros_def list_all_iff)

lemma square_assign:
  assumes "square n M"
  shows "square n (assign M i j v)"
proof (cases "i < length M")
  case True
  with assms show ?thesis
    by (auto simp: square_def assign_def list_all_length nth_list_update)
next
  case False
  with assms show ?thesis by (simp add: assign_def list_update_beyond)
qed

lemma assign_same:
  "square n M \<Longrightarrow> i < n \<Longrightarrow> j < n \<Longrightarrow> assign M i j v ! i ! j = v"
  by (simp add: square_def assign_def list_all_length)

lemma foldl_upt_invariant:
  assumes "P 0 s" and "\<And>i s. i < n \<Longrightarrow> P i s \<Longrightarrow> P (Suc i) (f s i)"
  shows "P n (foldl f s [0..<n])"
  using assms(2)
proof (induction n)
  case 0
  then show ?case using assms(1) by simp
next
  case (Suc n)
  then show ?case by simp
qed

text \<open>After the mirroring loop the entry at \<open>(a, b)\<close> is the entry the matrix had at or below the diagonal.\<close>

lemma mirror_nth:
  assumes sq: "square n M" and a: "a < n" and b: "b < n"
  shows "mirror M ! a ! b = (if a < b then M ! b ! a else M ! a ! b)"
proof -
  let ?inner = "\<lambda>k l M'. square n M' \<and>
     (\<forall>a < n. \<forall>b < n. M' ! a ! b =
        (if a < b \<and> (b < k \<or> (b = k \<and> a < l)) then M ! b ! a else M ! a ! b))"
  let ?outer = "\<lambda>k M'. ?inner k 0 M'"
  have inner_step: "?inner k (Suc l) (mirror_body k l M')"
    if "k < n" "l < Suc k" "?inner k l M'" for k l M'
  proof (intro conjI allI impI)
    from that show "square n (mirror_body k l M')" by (simp add: mirror_body_def square_assign)
  next
    fix a b assume ab: "a < n" "b < n"
    from that have l: "l \<le> k" "l < n" by simp_all
    from that(3) l \<open>k < n\<close> have v: "M' ! k ! l = M ! k ! l" by auto
    show "mirror_body k l M' ! a ! b =
        (if a < b \<and> (b < k \<or> (b = k \<and> a < Suc l)) then M ! b ! a else M ! a ! b)"
    proof (cases "(a, b) = (l, k)")
      case True
      with that l v show ?thesis by (auto simp: mirror_body_def assign_same)
    next
      case False
      then have "mirror_body k l M' ! a ! b = M' ! a ! b"
        by (simp add: mirror_body_def assign_other)
      with that(3) ab False show ?thesis by (auto simp: less_Suc_eq)
    qed
  qed
  have outer_step: "?outer (Suc k) (foldl (\<lambda>s cbi. mirror_body k cbi s) M' [0..<Suc k])"
    if "k < n" "?outer k M'" for k M'
  proof -
    have "?inner k (Suc k) (foldl (\<lambda>s cbi. mirror_body k cbi s) M' [0..<Suc k])"
      by (rule foldl_upt_invariant [where P = "?inner k"]) (use that inner_step in auto)
    then show ?thesis by (auto simp: less_Suc_eq)
  qed
  from sq have len: "length M = n" by (simp add: square_def)
  have "?outer 0 M" using sq by simp
  then have "?outer n (foldl (\<lambda>s cai. foldl (\<lambda>s cbi. mirror_body cai cbi s) s [0..<Suc cai])
                         M [0..<n])"
    by (rule foldl_upt_invariant [where P = ?outer]) (rule outer_step)
  then have "?outer n (mirror M)"
    unfolding mirror_def nested_loop_foldl len .
  with a b show ?thesis by auto
qed

lemma mirror_symmetric:
  assumes "square n M" and "a < n" and "b < n"
  shows "mirror M ! a ! b = mirror M ! b ! a"
  using mirror_nth [OF assms] mirror_nth [OF assms(1) assms(3) assms(2)]
  by (cases a b rule: linorder_cases) simp_all

lemma square_pairwise: "square (length rawMatrix) (jointMatrix (pairwise pOnes pZeros rawMatrix))"
  unfolding pairwise_def Let_def
  by (rule nested_loop_invariant [where P = "\<lambda>s. square (length rawMatrix) (jointMatrix s)"])
     (simp_all add: square_zeros pair_body_def Let_def square_assign)

text \<open>
  The part of claim C1 that the code meets on every input: the joint matrix that
  \<open>sparseDistance\<close> returns is symmetric, as a matrix of values of the model (where NaN
  is one value; Python's \<^verbatim>\<open>==\<close> does not hold between two NaN).
\<close>

lemma joint_matrix_symmetric:
  assumes "sparseDistance X mp mm weight = Inr r"
    and "i < nrows (out_keptX r)" and "j < nrows (out_keptX r)"
  shows "vals (out_jointMatrix r) ! i ! j = vals (out_jointMatrix r) ! j ! i"
proof -
  let ?K = "DataFilter mp mm X"
  let ?J = "jointMatrix (pairwise (pOnes_of weight ?K) (pZeros_of weight ?K) (vals ?K))"
  from assms(1) have two: "2 \<le> nrows ?K" by (rule sparseDistance_Inr)
  from assms(1) have r: "out_keptX r = ?K" "out_jointMatrix r = labelled (index ?K) (mirror ?J)"
    unfolding sparseDistance_returns [OF two] Let_def by auto
  from assms(2,3) have "i < length (vals ?K)" "j < length (vals ?K)"
    by (simp_all add: r nrows_def)
  from mirror_symmetric [OF square_pairwise this] show ?thesis
    by (simp add: r labelled_def)
qed

end
